theory Spec2Isabelle
  imports Main
begin

section \<open>Python values used by \<open>scripts/dates.py\<close>\<close>

text \<open>
  The resolver is written against three parts of the Python standard library: \<open>str\<close>
  methods, the \<open>re\<close> module and \<open>datetime\<close>/\<open>calendar\<close>. Each is modelled here by an
  executable definition. Exceptions are values: a computation returns \<open>Inl e\<close> where Python
  raises \<open>e\<close>, and \<open>Inr v\<close> where it returns \<open>v\<close>.
\<close>

datatype py_error = ValueError | OverflowError

subsection \<open>Strings\<close>

text \<open>
  A \<open>char\<close> stands for the code point of the same number (U+0000 to U+00FF). The
  character classes are the ones \<open>str.isspace\<close>, \<open>re\<close>'s \<open>\s\<close>, \<open>\d\<close>, \<open>\w\<close> and
  \<open>str.lower\<close> have on that range.
\<close>

definition is_space :: "char \<Rightarrow> bool" where
  "is_space c = (let n = (of_char c :: nat) in
     (9 \<le> n \<and> n \<le> 13) \<or> (28 \<le> n \<and> n \<le> 32) \<or> n = 133 \<or> n = 160)"

definition is_digit :: "char \<Rightarrow> bool" where
  "is_digit c = (let n = (of_char c :: nat) in 48 \<le> n \<and> n \<le> 57)"

definition is_word :: "char \<Rightarrow> bool" where
  "is_word c = (let n = (of_char c :: nat) in
     (48 \<le> n \<and> n \<le> 57) \<or> (65 \<le> n \<and> n \<le> 90) \<or> n = 95 \<or> (97 \<le> n \<and> n \<le> 122)
     \<or> n = 170 \<or> n = 178 \<or> n = 179 \<or> n = 181 \<or> n = 185 \<or> n = 186
     \<or> (188 \<le> n \<and> n \<le> 190) \<or> (192 \<le> n \<and> n \<le> 214) \<or> (216 \<le> n \<and> n \<le> 246)
     \<or> 248 \<le> n)"

definition lower_char :: "char \<Rightarrow> char" where
  "lower_char c = (let n = (of_char c :: nat) in
     if (65 \<le> n \<and> n \<le> 90) \<or> (192 \<le> n \<and> n \<le> 214) \<or> (216 \<le> n \<and> n \<le> 222)
     then char_of (n + 32) else c)"

definition lower :: "string \<Rightarrow> string" where
  "lower s = map lower_char s"

definition strip :: "string \<Rightarrow> string" where
  "strip s = rev (dropWhile is_space (rev (dropWhile is_space s)))"

fun startswith :: "string \<Rightarrow> string \<Rightarrow> bool" where
  "startswith s [] = True"
| "startswith [] (k # ks) = False"
| "startswith (c # cs) (k # ks) = (c = k \<and> startswith cs ks)"

text \<open>\<open>contains s kw\<close> is Python's \<open>kw in s\<close> on strings.\<close>

fun contains :: "string \<Rightarrow> string \<Rightarrow> bool" where
  "contains [] kw = (kw = [])"
| "contains (c # cs) kw = (startswith (c # cs) kw \<or> contains cs kw)"

text \<open>
  \<open>title\<close> is only applied to a key of \<open>MONTH_NAMES\<close>, a word of lower-case ASCII letters:
  its first letter is put in upper case.
\<close>

definition upper_char :: "char \<Rightarrow> char" where
  "upper_char c = (let n = (of_char c :: nat) in
     if 97 \<le> n \<and> n \<le> 122 then char_of (n - 32) else c)"

definition title :: "string \<Rightarrow> string" where
  "title s = (case s of [] \<Rightarrow> [] | c # cs \<Rightarrow> upper_char c # cs)"

text \<open>\<open>str_int\<close> is \<open>str\<close> on an integer (as an f-string renders it).\<close>

definition digit_char :: "nat \<Rightarrow> char" where
  "digit_char n = char_of (48 + n)"

fun str_nat :: "nat \<Rightarrow> string" where
  "str_nat n = (if n < 10 then [digit_char n] else str_nat (n div 10) @ [digit_char (n mod 10)])"

declare str_nat.simps [simp del]

definition str_int :: "int \<Rightarrow> string" where
  "str_int i = (if i < 0 then CHR ''-'' # str_nat (nat (- i)) else str_nat (nat i))"

text \<open>\<open>zero_pad w i\<close> is the format \<open>%0wd\<close> on a non-negative integer.\<close>

definition zero_pad :: "nat \<Rightarrow> int \<Rightarrow> string" where
  "zero_pad w i = (let s = str_int i in replicate (w - length s) CHR ''0'' @ s)"

text \<open>
  \<open>py_int\<close> is \<open>int\<close> on a string of decimal digits (the only strings the resolver
  converts are matches of \<open>\d+\<close>, \<open>\d{1,2}\<close>, \<open>\d{2}\<close> and \<open>\d{4}\<close>). The
  interpreter converts at most \<open>int_max_str_digits\<close> digits, leading zeros counted, and
  raises \<open>ValueError\<close> on a longer string; \<open>int_of_digits\<close> is the number a string of
  digits denotes.
\<close>

definition int_of_digits :: "string \<Rightarrow> int" where
  "int_of_digits s = foldl (\<lambda>a c. 10 * a + (int (of_char c) - 48)) 0 s"

definition int_max_str_digits :: nat where
  "int_max_str_digits = 4300"

definition py_int :: "string \<Rightarrow> py_error + int" where
  "py_int s = (if length s > int_max_str_digits then Inl ValueError else Inr (int_of_digits s))"

subsection \<open>Regular expressions\<close>

text \<open>
  The patterns of the resolver use literals, the classes \<open>\d\<close>, \<open>\w\<close>, \<open>\s\<close> under a
  greedy or lazy counted repetition, sequence, alternation, a greedy optional part,
  capturing groups and \<open>$\<close>. \<open>rmatch r s caps\<close> lists, in the order a backtracking
  matcher tries them, every way \<open>r\<close> matches a prefix of \<open>s\<close>: the rest of the input and
  the groups captured so far (most recent first).
\<close>

datatype cclass = Digit | Word | Space

fun in_class :: "cclass \<Rightarrow> char \<Rightarrow> bool" where
  "in_class Digit c = is_digit c"
| "in_class Word c = is_word c"
| "in_class Space c = is_space c"

datatype regex =
    Lit string
  | Rep cclass nat "nat option" bool
  | Seq "regex list"
  | Alt "regex list"
  | Opt regex
  | Group nat regex
  | Eos

type_synonym captures = "(nat \<times> string) list"

fun rmatch :: "regex \<Rightarrow> string \<Rightarrow> captures \<Rightarrow> (string \<times> captures) list"
  and rseq :: "regex list \<Rightarrow> string \<Rightarrow> captures \<Rightarrow> (string \<times> captures) list"
  and ralt :: "regex list \<Rightarrow> string \<Rightarrow> captures \<Rightarrow> (string \<times> captures) list"
where
  "rmatch (Lit w) s caps = (if startswith s w then [(drop (length w) s, caps)] else [])"
| "rmatch (Rep cl lo hi greedy) s caps =
     (let run = length (takeWhile (in_class cl) s);
          n = (case hi of None \<Rightarrow> run | Some h \<Rightarrow> min h run);
          ks = [lo ..< Suc n]
      in map (\<lambda>k. (drop k s, caps)) (if greedy then rev ks else ks))"
| "rmatch (Seq rs) s caps = rseq rs s caps"
| "rmatch (Alt rs) s caps = ralt rs s caps"
| "rmatch (Opt r) s caps = rmatch r s caps @ [(s, caps)]"
| "rmatch (Group g r) s caps =
     map (\<lambda>(rest, c). (rest, (g, take (length s - length rest) s) # c)) (rmatch r s caps)"
| "rmatch Eos s caps = (if s = [] \<or> s = [CHR 0x0A] then [(s, caps)] else [])"
| "rseq [] s caps = [(s, caps)]"
| "rseq (r # rs) s caps = concat (map (\<lambda>(rest, c). rseq rs rest c) (rmatch r s caps))"
| "ralt [] s caps = []"
| "ralt (r # rs) s caps = rmatch r s caps @ ralt rs s caps"

text \<open>\<open>re.match\<close>: the first way the pattern matches at the start of the string.\<close>

definition re_match :: "regex \<Rightarrow> string \<Rightarrow> captures option" where
  "re_match r s = (case rmatch r s [] of [] \<Rightarrow> None | (rest, caps) # _ \<Rightarrow> Some caps)"

text \<open>\<open>m.group(g)\<close>: \<open>None\<close> for a group that took no part in the match.\<close>

definition group :: "captures \<Rightarrow> nat \<Rightarrow> string option" where
  "group m g = map_of m g"

text \<open>A group that every match of its pattern sets, read as a string.\<close>

definition group_str :: "captures \<Rightarrow> nat \<Rightarrow> string" where
  "group_str m g = (case map_of m g of None \<Rightarrow> [] | Some s \<Rightarrow> s)"

text \<open>
  \<open>re.search\<close>: the leftmost position at which the pattern matches; returns the text
  before the match and the text after it.
\<close>

fun re_search_from :: "regex \<Rightarrow> string \<Rightarrow> string \<Rightarrow> (string \<times> string) option" where
  "re_search_from r pre [] =
     (case rmatch r [] [] of [] \<Rightarrow> None | (rest, _) # _ \<Rightarrow> Some (pre, rest))"
| "re_search_from r pre (c # cs) =
     (case rmatch r (c # cs) [] of
        [] \<Rightarrow> re_search_from r (pre @ [c]) cs
      | (rest, _) # _ \<Rightarrow> Some (pre, rest))"

definition re_search :: "regex \<Rightarrow> string \<Rightarrow> (string \<times> string) option" where
  "re_search r s = re_search_from r [] s"

text \<open>
  \<open>re.sub(r, "", s)\<close>: every non-overlapping match, scanning from the left, is removed.
\<close>

function re_sub_empty :: "regex \<Rightarrow> string \<Rightarrow> string" where
  "re_sub_empty r s =
     (case rmatch r s [] of
        [] \<Rightarrow> (case s of [] \<Rightarrow> [] | c # cs \<Rightarrow> c # re_sub_empty r cs)
      | (rest, _) # _ \<Rightarrow>
          (if length rest < length s then re_sub_empty r rest
           else (case s of [] \<Rightarrow> [] | c # cs \<Rightarrow> c # re_sub_empty r cs)))"
  by pat_completeness auto
termination
  by (relation "measure (\<lambda>(r, s). length s)") auto

declare re_sub_empty.simps [simp del]

subsection \<open>\<open>datetime\<close> and \<open>calendar\<close>\<close>

text \<open>
  The proleptic Gregorian calendar of \<open>datetime\<close>: years 1 to 9999, day 1 is 0001-01-01
  and day \<open>MAXORDINAL\<close> is 9999-12-31.
\<close>

definition MINYEAR :: int where "MINYEAR = 1"
definition MAXYEAR :: int where "MAXYEAR = 9999"
definition MAXORDINAL :: int where "MAXORDINAL = 3652059"

definition is_leap :: "int \<Rightarrow> bool" where
  "is_leap y = (y mod 4 = 0 \<and> (y mod 100 \<noteq> 0 \<or> y mod 400 = 0))"

definition DAYS_IN_MONTH :: "int \<Rightarrow> int" where
  "DAYS_IN_MONTH m =
     (if m = 2 then 28 else if m = 4 \<or> m = 6 \<or> m = 9 \<or> m = 11 then 30 else 31)"

definition DAYS_BEFORE_MONTH :: "int \<Rightarrow> int" where
  "DAYS_BEFORE_MONTH m =
     (if m \<le> 1 then 0 else if m = 2 then 31 else if m = 3 then 59 else if m = 4 then 90
      else if m = 5 then 120 else if m = 6 then 151 else if m = 7 then 181
      else if m = 8 then 212 else if m = 9 then 243 else if m = 10 then 273
      else if m = 11 then 304 else 334)"

text \<open>\<open>calendar.monthrange(y, m)[1]\<close>, for a month from 1 to 12 and any year.\<close>

definition days_in_month :: "int \<Rightarrow> int \<Rightarrow> int" where
  "days_in_month y m = (if m = 2 \<and> is_leap y then 29 else DAYS_IN_MONTH m)"

definition days_before_month :: "int \<Rightarrow> int \<Rightarrow> int" where
  "days_before_month y m = DAYS_BEFORE_MONTH m + (if m > 2 \<and> is_leap y then 1 else 0)"

definition days_before_year :: "int \<Rightarrow> int" where
  "days_before_year y = (let y1 = y - 1 in y1 * 365 + y1 div 4 - y1 div 100 + y1 div 400)"

definition ymd2ord :: "int \<Rightarrow> int \<Rightarrow> int \<Rightarrow> int" where
  "ymd2ord y m d = days_before_year y + days_before_month y m + d"

definition valid_ymd :: "int \<Rightarrow> int \<Rightarrow> int \<Rightarrow> bool" where
  "valid_ymd y m d =
     (MINYEAR \<le> y \<and> y \<le> MAXYEAR \<and> 1 \<le> m \<and> m \<le> 12 \<and> 1 \<le> d \<and> d \<le> days_in_month y m)"

definition month_day :: "bool \<Rightarrow> int \<Rightarrow> int \<times> int" where
  "month_day leapyear n =
     (let month = (n + 50) div 32;
          preceding = DAYS_BEFORE_MONTH month + (if month > 2 \<and> leapyear then 1 else 0)
      in if preceding > n
         then (let month' = month - 1;
                   preceding' = preceding
                     - (DAYS_IN_MONTH month' + (if month' = 2 \<and> leapyear then 1 else 0))
               in (month', n - preceding' + 1))
         else (month, n - preceding + 1))"

text \<open>The date (year, month, day) of an ordinal, by 400-, 100-, 4- and 1-year cycles.\<close>

definition ord2ymd :: "int \<Rightarrow> int \<times> int \<times> int" where
  "ord2ymd n0 =
     (let n = n0 - 1;
          n400 = n div 146097; r400 = n mod 146097;
          n100 = r400 div 36524; r100 = r400 mod 36524;
          n4 = r100 div 1461; r4 = r100 mod 1461;
          n1 = r4 div 365; r1 = r4 mod 365;
          y = n400 * 400 + 1 + n100 * 100 + n4 * 4 + n1
      in if n1 = 4 \<or> n100 = 4 then (y - 1, 12, 31)
         else (let leapyear = (n1 = 3 \<and> (n4 \<noteq> 24 \<or> n100 = 3));
                   md = month_day leapyear r1
               in (y, fst md, snd md)))"

text \<open>
  A \<open>datetime\<close> is its date, held as the ordinal of the day (what \<open>toordinal()\<close>
  returns), and its time of day. The fields \<open>year\<close>, \<open>month\<close> and \<open>day\<close> are read off the
  ordinal.
\<close>

record datetime =
  ordinal :: int
  hour :: int
  minute :: int
  second :: int
  microsecond :: int

definition year :: "datetime \<Rightarrow> int" where
  "year dt = fst (ord2ymd (ordinal dt))"

definition month :: "datetime \<Rightarrow> int" where
  "month dt = fst (snd (ord2ymd (ordinal dt)))"

definition day :: "datetime \<Rightarrow> int" where
  "day dt = snd (snd (ord2ymd (ordinal dt)))"

text \<open>A \<open>datetime\<close> object always holds a date of the calendar.\<close>

definition valid_datetime :: "datetime \<Rightarrow> bool" where
  "valid_datetime dt = (1 \<le> ordinal dt \<and> ordinal dt \<le> MAXORDINAL)"

text \<open>\<open>datetime(y, m, d)\<close>: midnight of that day, \<open>ValueError\<close> if there is no such day.\<close>

definition at_midnight :: "int \<Rightarrow> int \<Rightarrow> int \<Rightarrow> datetime" where
  "at_midnight y m d =
     \<lparr>ordinal = ymd2ord y m d, hour = 0, minute = 0, second = 0, microsecond = 0\<rparr>"

definition mk_datetime :: "int \<Rightarrow> int \<Rightarrow> int \<Rightarrow> py_error + datetime" where
  "mk_datetime y m d = (if valid_ymd y m d then Inr (at_midnight y m d) else Inl ValueError)"

text \<open>
  \<open>dt.replace(year=y, month=m, day=d)\<close> (a field the call leaves out is passed as the
  one of \<open>dt\<close>). The arguments go through a C \<open>int\<close> first: outside 32 bits the error is
  \<open>OverflowError\<close>, and \<open>ValueError\<close> otherwise when there is no such day.
\<close>

definition replace :: "datetime \<Rightarrow> int \<Rightarrow> int \<Rightarrow> int \<Rightarrow> py_error + datetime" where
  "replace dt y m d =
     (if y < - 2147483648 \<or> 2147483647 < y then Inl OverflowError
      else if valid_ymd y m d then Inr (dt\<lparr>ordinal := ymd2ord y m d\<rparr>)
      else Inl ValueError)"

text \<open>
  \<open>dt + timedelta(days=k)\<close>. A \<open>timedelta\<close> holds at most 999999999 days, and the sum
  must be a day of the calendar; both failures are \<open>OverflowError\<close>.
\<close>

definition add_days :: "datetime \<Rightarrow> int \<Rightarrow> py_error + datetime" where
  "add_days dt k =
     (if k < - 999999999 \<or> 999999999 < k then Inl OverflowError
      else let n = ordinal dt + k
           in if 1 \<le> n \<and> n \<le> MAXORDINAL then Inr (dt\<lparr>ordinal := n\<rparr>)
              else Inl OverflowError)"

text \<open>\<open>dt.weekday()\<close>: Monday is 0, Sunday is 6.\<close>

definition weekday :: "datetime \<Rightarrow> int" where
  "weekday dt = (ordinal dt + 6) mod 7"

text \<open>\<open>date.isoformat()\<close> and \<open>date.strftime("%A")\<close> of the day with a given ordinal.\<close>

definition isoformat :: "int \<Rightarrow> string" where
  "isoformat n = (case ord2ymd n of (y, m, d) \<Rightarrow>
     zero_pad 4 y @ ''-'' @ zero_pad 2 m @ ''-'' @ zero_pad 2 d)"

definition strftime_A :: "int \<Rightarrow> string" where
  "strftime_A n = (let w = (n + 6) mod 7 in
     if w = 0 then ''Monday'' else if w = 1 then ''Tuesday'' else if w = 2 then ''Wednesday''
     else if w = 3 then ''Thursday'' else if w = 4 then ''Friday''
     else if w = 5 then ''Saturday'' else ''Sunday'')"

section \<open>The resolver\<close>

definition WEEKDAYS :: "(string \<times> int) list" where
  "WEEKDAYS =
     [(''monday'', 0), (''tuesday'', 1), (''wednesday'', 2), (''thursday'', 3),
      (''friday'', 4), (''saturday'', 5), (''sunday'', 6),
      (''mon'', 0), (''tue'', 1), (''tues'', 1), (''wed'', 2), (''thu'', 3), (''thur'', 3),
      (''thurs'', 3), (''fri'', 4), (''sat'', 5), (''sun'', 6)]"

definition MONTH_NAMES :: "(string \<times> int) list" where
  "MONTH_NAMES =
     [(''january'', 1), (''february'', 2), (''march'', 3), (''april'', 4),
      (''may'', 5), (''june'', 6), (''july'', 7), (''august'', 8),
      (''september'', 9), (''october'', 10), (''november'', 11), (''december'', 12),
      (''jan'', 1), (''feb'', 2), (''mar'', 3), (''apr'', 4),
      (''jun'', 6), (''jul'', 7), (''aug'', 8), (''sep'', 9), (''sept'', 9),
      (''oct'', 10), (''nov'', 11), (''dec'', 12)]"

subsection \<open>Calendar helpers\<close>

definition next_weekday :: "int \<Rightarrow> datetime \<Rightarrow> int \<Rightarrow> py_error + datetime" where
  "next_weekday wd ref weeks_ahead =
     (let days_ahead = wd - weekday ref;
          days_ahead = (if days_ahead \<le> 0 then days_ahead + 7 else days_ahead)
      in add_days ref (days_ahead + weeks_ahead * 7))"

definition prev_weekday :: "int \<Rightarrow> datetime \<Rightarrow> int \<Rightarrow> py_error + datetime" where
  "prev_weekday wd ref weeks_back =
     (let days_back = weekday ref - wd;
          days_back = (if days_back \<le> 0 then days_back + 7 else days_back)
      in add_days ref (- (days_back + weeks_back * 7)))"

definition add_months :: "datetime \<Rightarrow> int \<Rightarrow> py_error + datetime" where
  "add_months dt months =
     (let month0 = month dt - 1 + months;
          year' = year dt + month0 div 12;
          month' = month0 mod 12 + 1;
          day' = min (day dt) (days_in_month year' month')
      in replace dt year' month' day')"

subsection \<open>Patterns\<close>

text \<open>\<open>c+\<close>, \<open>c+?\<close>, \<open>c*\<close> and \<open>c{lo,hi}\<close> for a class \<open>c\<close>.\<close>

definition rplus :: "cclass \<Rightarrow> regex" where
  "rplus c = Rep c 1 None True"

definition rplus_lazy :: "cclass \<Rightarrow> regex" where
  "rplus_lazy c = Rep c 1 None False"

definition rstar :: "cclass \<Rightarrow> regex" where
  "rstar c = Rep c 0 None True"

definition rcount :: "cclass \<Rightarrow> nat \<Rightarrow> nat \<Rightarrow> regex" where
  "rcount c lo hi = Rep c lo (Some hi) True"

text \<open>
  \<^verbatim>\<open>\s+(?:at\s+\d{1,2}(?::\d{2})?\s*(?:am|pm)?|in\s+the\s+(?:morning|afternoon|evening)|morning|afternoon|evening|night)$\<close>
\<close>

definition time_suffixes :: regex where
  "time_suffixes =
     Seq [rplus Space,
          Alt [Seq [Lit ''at'', rplus Space, rcount Digit 1 2,
                    Opt (Seq [Lit '':'', rcount Digit 2 2]), rstar Space,
                    Opt (Alt [Lit ''am'', Lit ''pm''])],
               Seq [Lit ''in'', rplus Space, Lit ''the'', rplus Space,
                    Alt [Lit ''morning'', Lit ''afternoon'', Lit ''evening'']],
               Lit ''morning'', Lit ''afternoon'', Lit ''evening'', Lit ''night''],
          Eos]"

text \<open>\<^verbatim>\<open>(next|this|last|previous)\s+(\w+)\<close>\<close>

definition modifier_pattern :: regex where
  "modifier_pattern =
     Seq [Group 1 (Alt [Lit ''next'', Lit ''this'', Lit ''last'', Lit ''previous'']),
          rplus Space, Group 2 (rplus Word)]"

text \<open>\<^verbatim>\<open>(\d+)\s+(\w+?)s?\s+from\s+(?:now|today)\<close>\<close>

definition from_now_pattern :: regex where
  "from_now_pattern =
     Seq [Group 1 (rplus Digit), rplus Space, Group 2 (rplus_lazy Word), Opt (Lit ''s''),
          rplus Space, Lit ''from'', rplus Space, Alt [Lit ''now'', Lit ''today'']]"

text \<open>\<^verbatim>\<open>in\s+(\d+)\s+(?:business\s+days?|workdays?|work\s+days?)\<close>\<close>

definition business_pattern :: regex where
  "business_pattern =
     Seq [Lit ''in'', rplus Space, Group 1 (rplus Digit), rplus Space,
          Alt [Seq [Lit ''business'', rplus Space, Lit ''day'', Opt (Lit ''s'')],
               Seq [Lit ''workday'', Opt (Lit ''s'')],
               Seq [Lit ''work'', rplus Space, Lit ''day'', Opt (Lit ''s'')]]]"

text \<open>\<^verbatim>\<open>in\s+(\d+)\s+(\w+?)s?$\<close>\<close>

definition in_units_pattern :: regex where
  "in_units_pattern =
     Seq [Lit ''in'', rplus Space, Group 1 (rplus Digit), rplus Space,
          Group 2 (rplus_lazy Word), Opt (Lit ''s''), Eos]"

text \<open>\<^verbatim>\<open>(\d+)\s+(\w+?)s?\s+ago\<close>\<close>

definition ago_pattern :: regex where
  "ago_pattern =
     Seq [Group 1 (rplus Digit), rplus Space, Group 2 (rplus_lazy Word), Opt (Lit ''s''),
          rplus Space, Lit ''ago'']"

text \<open>\<^verbatim>\<open>an?\s+(\w+)\s+from\s+(?:now|today)\<close>\<close>

definition a_unit_pattern :: regex where
  "a_unit_pattern =
     Seq [Lit ''a'', Opt (Lit ''n''), rplus Space, Group 1 (rplus Word),
          rplus Space, Lit ''from'', rplus Space, Alt [Lit ''now'', Lit ''today'']]"

text \<open>\<^verbatim>\<open>(\w+)\s+(\d{1,2})(?:st|nd|rd|th)?(?:\s*,?\s*(\d{4}))?$\<close>\<close>

definition month_day_pattern :: regex where
  "month_day_pattern =
     Seq [Group 1 (rplus Word), rplus Space, Group 2 (rcount Digit 1 2),
          Opt (Alt [Lit ''st'', Lit ''nd'', Lit ''rd'', Lit ''th'']),
          Opt (Seq [rstar Space, Opt (Lit '',''), rstar Space, Group 3 (rcount Digit 4 4)]),
          Eos]"

text \<open>\<^verbatim>\<open>(\d{1,2})(?:st|nd|rd|th)?\s+(?:of\s+)?(\w+)(?:\s*,?\s*(\d{4}))?$\<close>\<close>

definition day_month_pattern :: regex where
  "day_month_pattern =
     Seq [Group 1 (rcount Digit 1 2),
          Opt (Alt [Lit ''st'', Lit ''nd'', Lit ''rd'', Lit ''th'']),
          rplus Space, Opt (Seq [Lit ''of'', rplus Space]), Group 2 (rplus Word),
          Opt (Seq [rstar Space, Opt (Lit '',''), rstar Space, Group 3 (rcount Digit 4 4)]),
          Eos]"

text \<open>\<^verbatim>\<open>(\d{4})-(\d{2})-(\d{2})$\<close>\<close>

definition iso_pattern :: regex where
  "iso_pattern =
     Seq [Group 1 (rcount Digit 4 4), Lit ''-'', Group 2 (rcount Digit 2 2), Lit ''-'',
          Group 3 (rcount Digit 2 2), Eos]"

subsection \<open>Normalizing the expression\<close>

text \<open>
  \<open>expr = expression.lower().strip()\<close>, then a time-of-day suffix is searched for and,
  when there is one, removed. The result is \<open>(expr, has_time_suffix)\<close>.
\<close>

definition normalize :: "string \<Rightarrow> string \<times> bool" where
  "normalize expression' =
     (let expr = strip (lower expression');
          has_time_suffix = (re_search time_suffixes expr \<noteq> None)
      in (if has_time_suffix then strip (re_sub_empty time_suffixes expr) else expr,
          has_time_suffix))"

subsection \<open>The grammars\<close>

text \<open>
  Each block of \<open>resolve\<close> that may set \<open>parsed\<close> and \<open>desc\<close> is a function of the
  normalized expression and \<open>today\<close>: \<open>Inr None\<close> when it leaves \<open>parsed\<close> as \<open>None\<close>,
  \<open>Inr (Some (parsed, desc))\<close> when it sets them, \<open>Inl e\<close> when it raises \<open>e\<close>.
\<close>

type_synonym parsed = "(datetime \<times> string) option"

type_synonym grammar = "string \<Rightarrow> datetime \<Rightarrow> py_error + parsed"

definition parsed_as :: "py_error + datetime \<Rightarrow> string \<Rightarrow> py_error + parsed" where
  "parsed_as r desc = (case r of Inl e \<Rightarrow> Inl e | Inr d \<Rightarrow> Inr (Some (d, desc)))"

text \<open>\<open>try: ... except ValueError: pass\<close> around a block that sets \<open>parsed\<close>.\<close>

definition except_ValueError :: "py_error + parsed \<Rightarrow> py_error + parsed" where
  "except_ValueError r = (case r of Inl ValueError \<Rightarrow> Inr None | _ \<Rightarrow> r)"

text \<open>The truth value of \<open>m.group(g)\<close> in a condition.\<close>

definition truthy :: "string option \<Rightarrow> bool" where
  "truthy g = (case g of None \<Rightarrow> False | Some s \<Rightarrow> s \<noteq> [])"

definition fixed_words :: grammar where
  "fixed_words expr today =
     (if expr = ''today'' \<or> expr = ''now'' then Inr (Some (today, ''today''))
      else if expr = ''tomorrow'' then parsed_as (add_days today 1) ''tomorrow''
      else if expr = ''yesterday'' then parsed_as (add_days today (- 1)) ''yesterday''
      else if expr = ''day after tomorrow''
        then parsed_as (add_days today 2) ''day after tomorrow''
      else if expr = ''day before yesterday''
        then parsed_as (add_days today (- 2)) ''day before yesterday''
      else if expr = ''end of week'' \<or> expr = ''end of this week'' \<or> expr = ''this weekend''
        then (let days_to_sunday = 6 - weekday today;
                  days_to_sunday = (if days_to_sunday = 0 \<and> expr \<noteq> ''this weekend''
                                    then 0 else days_to_sunday)
              in parsed_as (add_days today days_to_sunday) ''end of this week (Sunday)'')
      else if expr = ''start of next week'' \<or> expr = ''beginning of next week''
              \<or> expr = ''next week''
        then (let days_to_monday = 7 - weekday today
              in parsed_as (add_days today days_to_monday) ''start of next week (Monday)'')
      else if expr = ''end of month'' \<or> expr = ''end of this month'' \<or> expr = ''eom''
        then (let last_day = days_in_month (year today) (month today)
              in parsed_as (replace today (year today) (month today) last_day)
                   ''end of this month'')
      else if expr = ''start of next month'' \<or> expr = ''beginning of next month''
        then (case replace today (year today) (month today) 1 of
                Inl e \<Rightarrow> Inl e
              | Inr first \<Rightarrow> parsed_as (add_months first 1) ''start of next month'')
      else if expr = ''end of year'' \<or> expr = ''end of this year'' \<or> expr = ''eoy''
        then parsed_as (replace today (year today) 12 31) ''end of this year''
      else if expr = ''start of next year'' \<or> expr = ''beginning of next year''
        then parsed_as (replace today (year today + 1) 1 1) ''start of next year''
      else Inr None)"

definition modifier_weekday :: grammar where
  "modifier_weekday expr today =
     (case re_match modifier_pattern expr of
        None \<Rightarrow> Inr None
      | Some m \<Rightarrow>
          (let modifier = group_str m 1; day_name = group_str m 2 in
           case map_of WEEKDAYS day_name of
             Some wd \<Rightarrow>
               (if modifier = ''next'' \<or> modifier = ''this''
                  then parsed_as (next_weekday wd today 0) (''next '' @ day_name)
                else if modifier = ''last'' \<or> modifier = ''previous''
                  then parsed_as (prev_weekday wd today 0) (''last '' @ day_name)
                else Inr None)
           | None \<Rightarrow>
               (if day_name = ''week'' then
                  (if modifier = ''next''
                     then parsed_as (add_days today (7 - weekday today)) ''start of next week''
                   else if modifier = ''last'' \<or> modifier = ''previous''
                     then parsed_as (add_days today (- (weekday today + 7)))
                            ''start of last week''
                   else Inr None)
                else if day_name = ''month'' then
                  (if modifier = ''next''
                     then (case replace today (year today) (month today) 1 of
                             Inl e \<Rightarrow> Inl e
                           | Inr first \<Rightarrow>
                               parsed_as (add_months first 1) ''start of next month'')
                   else if modifier = ''last'' \<or> modifier = ''previous''
                     then (case replace today (year today) (month today) 1 of
                             Inl e \<Rightarrow> Inl e
                           | Inr first \<Rightarrow>
                               parsed_as (add_months first (- 1)) ''start of last month'')
                   else Inr None)
                else Inr None)))"

definition counted_from_now :: grammar where
  "counted_from_now expr today =
     (case re_match from_now_pattern expr of
        None \<Rightarrow> Inr None
      | Some m \<Rightarrow>
          (case py_int (group_str m 1) of
             Inl e \<Rightarrow> Inl e
           | Inr count \<Rightarrow>
              (let unit = group_str m 2 in
               case map_of WEEKDAYS unit of
                 Some wd \<Rightarrow>
                   parsed_as (next_weekday wd today (count - 1))
                     (str_int count @ '' '' @ unit @ ''(s) from now'')
               | None \<Rightarrow>
                   (if unit = ''day''
                      then parsed_as (add_days today count)
                             (str_int count @ '' day(s) from now'')
                    else if unit = ''week''
                      then parsed_as (add_days today (7 * count))
                             (str_int count @ '' week(s) from now'')
                    else if unit = ''month''
                      then parsed_as (add_months today count)
                             (str_int count @ '' month(s) from now'')
                    else if unit = ''year''
                      then parsed_as
                             (replace today (year today + count) (month today) (day today))
                             (str_int count @ '' year(s) from now'')
                    else Inr None))))"

text \<open>
  The loop of the business-day grammar: \<open>while added < count: d += timedelta(days=1);
  if d.weekday() < 5: added += 1\<close>. It ends, at the latest when \<open>d\<close> leaves the calendar.
\<close>

function business_loop :: "datetime \<Rightarrow> int \<Rightarrow> int \<Rightarrow> py_error + datetime" where
  "business_loop d added count =
     (if added < count
      then (case add_days d 1 of
              Inl e \<Rightarrow> Inl e
            | Inr d' \<Rightarrow> business_loop d' (if weekday d' < 5 then added + 1 else added) count)
      else Inr d)"
  by pat_completeness auto
termination
  by (relation "measure (\<lambda>(d, added, count). nat (MAXORDINAL - ordinal d))")
     (auto simp: add_days_def Let_def split: if_splits)

declare business_loop.simps [simp del]

definition in_business_days :: grammar where
  "in_business_days expr today =
     (case re_match business_pattern expr of
        None \<Rightarrow> Inr None
      | Some m \<Rightarrow>
          (case py_int (group_str m 1) of
             Inl e \<Rightarrow> Inl e
           | Inr count \<Rightarrow>
               parsed_as (business_loop today 0 count)
                 (''in '' @ str_int count @ '' business day(s)'')))"

definition in_units :: grammar where
  "in_units expr today =
     (case re_match in_units_pattern expr of
        None \<Rightarrow> Inr None
      | Some m \<Rightarrow>
          (case py_int (group_str m 1) of
             Inl e \<Rightarrow> Inl e
           | Inr count \<Rightarrow>
              (let unit = group_str m 2 in
               if unit = ''day''
                 then parsed_as (add_days today count) (''in '' @ str_int count @ '' day(s)'')
               else if unit = ''week''
                 then parsed_as (add_days today (7 * count))
                        (''in '' @ str_int count @ '' week(s)'')
               else if unit = ''month''
                 then parsed_as (add_months today count)
                        (''in '' @ str_int count @ '' month(s)'')
               else if unit = ''year''
                 then parsed_as (replace today (year today + count) (month today) (day today))
                        (''in '' @ str_int count @ '' year(s)'')
               else Inr None)))"

definition units_ago :: grammar where
  "units_ago expr today =
     (case re_match ago_pattern expr of
        None \<Rightarrow> Inr None
      | Some m \<Rightarrow>
          (case py_int (group_str m 1) of
             Inl e \<Rightarrow> Inl e
           | Inr count \<Rightarrow>
              (let unit = group_str m 2 in
               if unit = ''day''
                 then parsed_as (add_days today (- count)) (str_int count @ '' day(s) ago'')
               else if unit = ''week''
                 then parsed_as (add_days today (- (7 * count)))
                        (str_int count @ '' week(s) ago'')
               else if unit = ''month''
                 then parsed_as (add_months today (- count)) (str_int count @ '' month(s) ago'')
               else if unit = ''year''
                 then parsed_as (replace today (year today - count) (month today) (day today))
                        (str_int count @ '' year(s) ago'')
               else Inr None)))"

definition a_unit_from_now :: grammar where
  "a_unit_from_now expr today =
     (case re_match a_unit_pattern expr of
        None \<Rightarrow> Inr None
      | Some m \<Rightarrow>
          (let unit = group_str m 1 in
           if unit = ''week'' then parsed_as (add_days today 7) ''a week from now''
           else if unit = ''month'' then parsed_as (add_months today 1) ''a month from now''
           else if unit = ''year''
             then parsed_as (replace today (year today + 1) (month today) (day today))
                    ''a year from now''
           else Inr None))"

text \<open>\<open>while d.weekday() >= 5: d += timedelta(days=1)\<close>\<close>

function weekend_loop :: "datetime \<Rightarrow> py_error + datetime" where
  "weekend_loop d =
     (if weekday d \<ge> 5
      then (case add_days d 1 of Inl e \<Rightarrow> Inl e | Inr d' \<Rightarrow> weekend_loop d')
      else Inr d)"
  by pat_completeness auto
termination
  by (relation "measure (\<lambda>d. nat (MAXORDINAL - ordinal d))")
     (auto simp: add_days_def Let_def split: if_splits)

declare weekend_loop.simps [simp del]

definition next_business_day :: grammar where
  "next_business_day expr today =
     (if expr = ''next weekday'' \<or> expr = ''next business day'' \<or> expr = ''next workday''
      then (case add_days today 1 of
              Inl e \<Rightarrow> Inl e
            | Inr d \<Rightarrow> parsed_as (weekend_loop d) ''next business day'')
      else Inr None)"

definition bare_weekday :: grammar where
  "bare_weekday expr today =
     (case map_of WEEKDAYS expr of
        None \<Rightarrow> Inr None
      | Some wd \<Rightarrow> parsed_as (next_weekday wd today 0) (''next '' @ expr))"

text \<open>
  The body shared by the two month/day blocks, from the month name, the digits of the
  day and the optional group of the year.
\<close>

definition month_day_date :: "string \<Rightarrow> string \<Rightarrow> string option \<Rightarrow> datetime \<Rightarrow> py_error + parsed" where
  "month_day_date name day_digits year_group today =
     (case map_of MONTH_NAMES name of
        None \<Rightarrow> Inr None
      | Some month' \<Rightarrow>
          (case py_int day_digits of
             Inl e \<Rightarrow> Inl e
           | Inr day' \<Rightarrow>
              (case (case year_group of
                       Some y \<Rightarrow> (if y \<noteq> [] then py_int y else Inr (year today))
                     | None \<Rightarrow> Inr (year today)) of
                 Inl e \<Rightarrow> Inl e
               | Inr year' \<Rightarrow>
                   except_ValueError
                     (case mk_datetime year' month' day' of
                        Inl e \<Rightarrow> Inl e
                      | Inr candidate \<Rightarrow>
                          (if \<not> truthy year_group \<and> ordinal candidate < ordinal today
                           then (case mk_datetime (year' + 1) month' day' of
                                   Inl e \<Rightarrow> Inl e
                                 | Inr candidate' \<Rightarrow>
                                     Inr (Some (candidate',
                                       title name @ '' '' @ str_int day' @ '', ''
                                         @ str_int (year candidate'))))
                           else Inr (Some (candidate,
                                  title name @ '' '' @ str_int day' @ '', ''
                                    @ str_int (year candidate))))))))"

definition month_then_day :: grammar where
  "month_then_day expr today =
     (case re_match month_day_pattern expr of
        None \<Rightarrow> Inr None
      | Some m \<Rightarrow> month_day_date (group_str m 1) (group_str m 2) (group m 3) today)"

definition day_then_month :: grammar where
  "day_then_month expr today =
     (case re_match day_month_pattern expr of
        None \<Rightarrow> Inr None
      | Some m \<Rightarrow> month_day_date (group_str m 2) (group_str m 1) (group m 3) today)"

definition iso_date :: grammar where
  "iso_date expr today =
     (case re_match iso_pattern expr of
        None \<Rightarrow> Inr None
      | Some m \<Rightarrow>
          except_ValueError
            (case py_int (group_str m 1) of
               Inl e \<Rightarrow> Inl e
             | Inr y \<Rightarrow>
                (case py_int (group_str m 2) of
                   Inl e \<Rightarrow> Inl e
                 | Inr mo \<Rightarrow>
                    (case py_int (group_str m 3) of
                       Inl e \<Rightarrow> Inl e
                     | Inr d \<Rightarrow> parsed_as (mk_datetime y mo d) ''ISO date''))))"

subsection \<open>\<open>resolve\<close>\<close>

text \<open>
  The blocks in the order of the source; each one after the first runs only
  \<open>if parsed is None\<close>.
\<close>

definition grammars :: "grammar list" where
  "grammars =
     [fixed_words, modifier_weekday, counted_from_now, in_business_days, in_units,
      units_ago, a_unit_from_now, next_business_day, bare_weekday, month_then_day,
      day_then_month, iso_date]"

fun first_match :: "grammar list \<Rightarrow> string \<Rightarrow> datetime \<Rightarrow> py_error + parsed" where
  "first_match [] expr today = Inr None"
| "first_match (g # gs) expr today =
     (case g expr today of
        Inl e \<Rightarrow> Inl e
      | Inr (Some p) \<Rightarrow> Inr (Some p)
      | Inr None \<Rightarrow> first_match gs expr today)"

record resolution =
  date :: string
  day_of_week :: string
  expression :: string
  description :: string
  days_from_today :: int
  warning :: "string option"

text \<open>The dictionary \<open>resolve\<close> returns: \<open>{"error": ...}\<close> or the resolution.\<close>

datatype result = ErrorDict string | ResultDict resolution

definition time_keywords :: "string list" where
  "time_keywords = [''at '', '' am'', '' pm'', ''noon'', ''midnight'', ''o'' @ [CHR 0x27] @ ''clock'']"

definition time_warning :: string where
  "time_warning = ''Time component detected but ignored (date-only resolver)''"

text \<open>\<open>ref.replace(hour=0, minute=0, second=0, microsecond=0)\<close>\<close>

definition start_of_day :: "datetime \<Rightarrow> datetime" where
  "start_of_day ref = ref\<lparr>hour := 0, minute := 0, second := 0, microsecond := 0\<rparr>"

definition resolve :: "string \<Rightarrow> datetime \<Rightarrow> py_error + result" where
  "resolve expression' ref =
     (let today = start_of_day ref;
          (expr, has_time_suffix) = normalize expression'
      in case first_match grammars expr today of
           Inl e \<Rightarrow> Inl e
         | Inr None \<Rightarrow>
             Inr (ErrorDict (''Could not parse: '' @ [CHR 0x27] @ expression' @ [CHR 0x27]))
         | Inr (Some (parsed, desc)) \<Rightarrow>
             (let result_date = ordinal parsed in
              Inr (ResultDict
                \<lparr>date = isoformat result_date,
                 day_of_week = strftime_A result_date,
                 expression = expression',
                 description = desc,
                 days_from_today = result_date - ordinal today,
                 warning =
                   (if has_time_suffix then Some time_warning
                    else if list_ex (contains (lower expression')) time_keywords
                      then Some time_warning
                    else None)\<rparr>)))"

section \<open>Predicates used in the statements and proofs\<close>

text \<open>
  A business day is a Monday to Friday; \<open>business_days_between a b\<close> counts the
  business days after the day of ordinal \<open>a\<close> up to and including the day of ordinal
  \<open>b\<close>.
\<close>

definition business_day :: "int \<Rightarrow> bool" where
  "business_day n = ((n + 6) mod 7 < 5)"

definition business_days_between :: "int \<Rightarrow> int \<Rightarrow> int" where
  "business_days_between a b = int (length (filter business_day [a + 1 .. b]))"

text \<open>A block's outcome, when it sets \<open>parsed\<close>, sets it to a date of the calendar.\<close>

definition yields_valid :: "py_error + parsed \<Rightarrow> bool" where
  "yields_valid r = (\<forall>p desc. r = Inr (Some (p, desc)) \<longrightarrow> valid_datetime p)"

text \<open>
  The first way a pattern matches a text, of the ways \<open>rmatch\<close> lists in the order in
  which the backtracking matcher tries them: the one \<open>re.match\<close> returns.
\<close>

definition first_way :: "regex \<Rightarrow> string \<Rightarrow> captures \<Rightarrow> (string \<times> captures) option" where
  "first_way r s caps = (case rmatch r s caps of [] \<Rightarrow> None | x # _ \<Rightarrow> Some x)"

definition first_way_seq :: "regex list \<Rightarrow> string \<Rightarrow> captures \<Rightarrow> (string \<times> captures) option" where
  "first_way_seq rs s caps = (case rseq rs s caps of [] \<Rightarrow> None | x # _ \<Rightarrow> Some x)"

section \<open>Calendar facts\<close>

lemma month_day_ok:
  assumes "0 \<le> n" "n < (if lp then 366 else 365)"
  shows "1 \<le> fst (month_day lp n) \<and> fst (month_day lp n) \<le> 12 \<and> 1 \<le> snd (month_day lp n)
    \<and> snd (month_day lp n) \<le> DAYS_IN_MONTH (fst (month_day lp n)) + (if fst (month_day lp n) = 2 \<and> lp then 1 else 0)
    \<and> DAYS_BEFORE_MONTH (fst (month_day lp n)) + (if fst (month_day lp n) > 2 \<and> lp then 1 else 0) + snd (month_day lp n) = n + 1"
proof -
  define q where "q = (n + 50) div 32"
  have q: "32 * q \<le> n + 50" "n + 50 < 32 * q + 32" unfolding q_def by presburger+
  have "n < 366" using assms by (simp split: if_splits)
  with q assms(1) have "1 \<le> q" "q \<le> 12" by linarith+
  then have "q = 1 \<or> q = 2 \<or> q = 3 \<or> q = 4 \<or> q = 5 \<or> q = 6 \<or> q = 7 \<or> q = 8 \<or> q = 9 \<or> q = 10 \<or> q = 11 \<or> q = 12"
    by presburger
  then show ?thesis using q assms unfolding month_day_def q_def[symmetric] Let_def
    by (elim disjE) (simp_all add: DAYS_BEFORE_MONTH_def DAYS_IN_MONTH_def split: if_splits)
qed


lemma div_eqI: "0 \<le> r \<Longrightarrow> r < k \<Longrightarrow> x = k * q + r \<Longrightarrow> x div k = (q::int)"
  by (simp add: div_pos_pos_trivial)

lemma mod_eqI: "0 \<le> r \<Longrightarrow> r < k \<Longrightarrow> x = k * q + r \<Longrightarrow> x mod k = (r::int)"
  by (simp add: mod_pos_pos_trivial)

lemma div_step:
  assumes k: "0 < (k::int)"
  shows "y div k = (y - 1) div k + (if y mod k = 0 then 1 else 0)"
proof (cases "y mod k = 0")
  case True
  have y: "y = k * (y div k) + y mod k" by simp
  have "(y - 1) div k = y div k - 1"
    by (rule div_eqI[where r = "k - 1"]) (use k True y in \<open>auto simp: algebra_simps\<close>)
  then show ?thesis using True by simp
next
  case False
  have y: "y = k * (y div k) + y mod k" by simp
  have r: "0 \<le> y mod k" "y mod k < k" using k by simp_all
  have "(y - 1) div k = y div k"
    by (rule div_eqI[where r = "y mod k - 1"]) (use k False y r in \<open>auto simp: algebra_simps\<close>)
  then show ?thesis using False by simp
qed

lemma m1: "(y::int) mod 100 = 0 \<Longrightarrow> y mod 4 = 0"
proof -
  assume "y mod 100 = 0"
  then have "100 dvd y" by auto
  moreover have "(4::int) dvd 100" by simp
  ultimately have "4 dvd y" by (rule dvd_trans[rotated])
  then show ?thesis by auto
qed

lemma m2: "(y::int) mod 400 = 0 \<Longrightarrow> y mod 100 = 0"
proof -
  assume "y mod 400 = 0"
  then have "400 dvd y" by auto
  moreover have "(100::int) dvd 400" by simp
  ultimately have "100 dvd y" by (rule dvd_trans[rotated])
  then show ?thesis by auto
qed


lemma dby_step_aux:
  fixes y A B C A' B' C' :: int
  assumes "A' = A + (if p4 then 1 else 0)" "B' = B + (if p100 then 1 else 0)"
    "C' = C + (if p400 then 1 else 0)" "p100 \<Longrightarrow> p4" "p400 \<Longrightarrow> p100"
  shows "y * 365 + A' - B' + C' = (y - 1) * 365 + A - B + C + 365 + (if p4 \<and> (\<not> p100 \<or> p400) then 1 else 0)"
proof -
  have "p4 \<or> \<not> p100" "p100 \<or> \<not> p400" using assms(4,5) by blast+
  then show ?thesis unfolding assms(1-3) by (cases p4; cases p100; cases p400) simp_all
qed

lemma dby_step: "days_before_year (y + 1) = days_before_year y + 365 + (if is_leap y then 1 else 0)"
proof -
  have a: "y div 4 = (y - 1) div 4 + (if y mod 4 = 0 then 1 else 0)" by (rule div_step) simp
  have b: "y div 100 = (y - 1) div 100 + (if y mod 100 = 0 then 1 else 0)" by (rule div_step) simp
  have c: "y div 400 = (y - 1) div 400 + (if y mod 400 = 0 then 1 else 0)" by (rule div_step) simp
  have "y * 365 + y div 4 - y div 100 + y div 400 =
     (y - 1) * 365 + (y - 1) div 4 - (y - 1) div 100 + (y - 1) div 400 + 365
       + (if y mod 4 = 0 \<and> (\<not> y mod 100 = 0 \<or> y mod 400 = 0) then 1 else 0)"
    by (rule dby_step_aux[OF a b c]) (erule m1, erule m2)
  then show ?thesis
    unfolding days_before_year_def is_leap_def Let_def add_diff_cancel_right' .
qed

lemma dby_mono_aux: "days_before_year (y + 1) \<le> days_before_year (y + 1 + int k)"
proof (induction k)
  case 0 show ?case by simp
next
  case (Suc k)
  have "days_before_year (y + 1 + int k) \<le> days_before_year ((y + 1 + int k) + 1)"
    unfolding dby_step[of "y + 1 + int k"] by simp
  with Suc show ?case by (simp add: algebra_simps)
qed

lemma dby_mono: assumes "y < y'" shows "days_before_year (y + 1) \<le> days_before_year y'"
proof -
  have "y' = y + 1 + int (nat (y' - y - 1))" using assms by simp
  then show ?thesis using dby_mono_aux[of y "nat (y' - y - 1)"] by simp
qed

lemma dby_decomp:
  assumes "0 \<le> b" "b \<le> 3" "0 \<le> c" "c \<le> 24" "0 \<le> e" "e \<le> 3"
  shows "days_before_year (400 * a + 100 * b + 4 * c + e + 1) = 146097 * a + 36524 * b + 1461 * c + 365 * e"
proof -
  have 1: "(400 * a + 100 * b + 4 * c + e) div 4 = 100 * a + 25 * b + c"
    by (rule div_eqI[where r = e]) (use assms in auto)
  have 2: "(400 * a + 100 * b + 4 * c + e) div 100 = 4 * a + b"
    by (rule div_eqI[where r = "4 * c + e"]) (use assms in auto)
  have 3: "(400 * a + 100 * b + 4 * c + e) div 400 = a"
    by (rule div_eqI[where r = "100 * b + 4 * c + e"]) (use assms in auto)
  show ?thesis unfolding days_before_year_def Let_def using 1 2 3 by simp
qed

lemma leap_decomp:
  assumes "0 \<le> b" "b \<le> 3" "0 \<le> c" "c \<le> 24" "0 \<le> e" "e \<le> 3"
  shows "is_leap (400 * a + 100 * b + 4 * c + e + 1) = (e = 3 \<and> (c \<noteq> 24 \<or> b = 3))"
proof -
  let ?Y = "400 * a + 100 * b + 4 * c + e + 1"
  show ?thesis
  proof (cases "e = 3")
    case False
    have "?Y mod 4 = e + 1"
      by (rule mod_eqI[where q = "100 * a + 25 * b + c"]) (use assms False in auto)
    then show ?thesis using assms False by (simp add: is_leap_def)
  next
    case e3: True
    have m4: "?Y mod 4 = 0"
      by (rule mod_eqI[where q = "100 * a + 25 * b + c + 1"]) (use e3 in auto)
    show ?thesis
    proof (cases "c = 24")
      case False
      have "?Y mod 100 = 4 * (c + 1)"
        by (rule mod_eqI[where q = "4 * a + b"]) (use assms e3 False in auto)
      then show ?thesis using assms e3 False m4 by (simp add: is_leap_def)
    next
      case c24: True
      have m100: "?Y mod 100 = 0"
        by (rule mod_eqI[where q = "4 * a + b + 1"]) (use e3 c24 in auto)
      show ?thesis
      proof (cases "b = 3")
        case True
        have "?Y mod 400 = 0"
          by (rule mod_eqI[where q = "a + 1"]) (use e3 c24 True in auto)
        then show ?thesis using e3 c24 True m4 by (simp add: is_leap_def)
      next
        case False
        have "?Y mod 400 = 100 * (b + 1)"
          by (rule mod_eqI[where q = a]) (use assms e3 c24 False in auto)
        then show ?thesis using assms e3 c24 False m4 m100 by (simp add: is_leap_def)
      qed
    qed
  qed
qed


lemma divmod_facts:
  assumes "0 < (k::int)" "0 \<le> x"
  shows "x = k * (x div k) + x mod k" "0 \<le> x mod k" "x mod k < k" "0 \<le> x div k"
  using assms by (simp_all add: pos_imp_zdiv_nonneg_iff)

lemma ord2ymd_shape:
  fixes n :: int
  defines "N \<equiv> n - 1"
  defines "a \<equiv> N div 146097" and "r400 \<equiv> N mod 146097"
  defines "b \<equiv> r400 div 36524" and "r100 \<equiv> r400 mod 36524"
  defines "c \<equiv> r100 div 1461" and "r4 \<equiv> r100 mod 1461"
  defines "e \<equiv> r4 div 365" and "r1 \<equiv> r4 mod 365"
  shows "ord2ymd n =
    (if e = 4 \<or> b = 4 then (400 * a + 100 * b + 4 * c + e + 1 - 1, 12, 31)
     else (400 * a + 100 * b + 4 * c + e + 1,
           fst (month_day (e = 3 \<and> (c \<noteq> 24 \<or> b = 3)) r1),
           snd (month_day (e = 3 \<and> (c \<noteq> 24 \<or> b = 3)) r1)))"
  unfolding ord2ymd_def Let_def N_def a_def r400_def b_def r100_def c_def r4_def e_def r1_def
  by (simp add: algebra_simps)

lemma dim_alt: "days_in_month y m = DAYS_IN_MONTH m + (if m = 2 \<and> is_leap y then 1 else 0)"
  by (simp add: days_in_month_def DAYS_IN_MONTH_def)

lemma ord2ymd_ok:
  assumes n: "1 \<le> n"
  shows "case ord2ymd n of (y, m, d) \<Rightarrow>
           1 \<le> y \<and> 1 \<le> m \<and> m \<le> 12 \<and> 1 \<le> d \<and> d \<le> days_in_month y m \<and> ymd2ord y m d = n"
proof -
  define N where "N = n - 1"
  define a where "a = N div 146097"
  define r400 where "r400 = N mod 146097"
  define b where "b = r400 div 36524"
  define r100 where "r100 = r400 mod 36524"
  define c where "c = r100 div 1461"
  define r4 where "r4 = r100 mod 1461"
  define e where "e = r4 div 365"
  define r1 where "r1 = r4 mod 365"
  have N0: "0 \<le> N" using n by (simp add: N_def)
  have A: "N = 146097 * a + r400" "0 \<le> r400" "r400 < 146097" "0 \<le> a"
    unfolding a_def r400_def using divmod_facts[of 146097 N] N0 by simp_all
  have B: "r400 = 36524 * b + r100" "0 \<le> r100" "r100 < 36524" "0 \<le> b"
    unfolding b_def r100_def using divmod_facts[of 36524 r400] A(2) by simp_all
  have C: "r100 = 1461 * c + r4" "0 \<le> r4" "r4 < 1461" "0 \<le> c"
    unfolding c_def r4_def using divmod_facts[of 1461 r100] B(2) by simp_all
  have E: "r4 = 365 * e + r1" "0 \<le> r1" "r1 < 365" "0 \<le> e"
    unfolding e_def r1_def using divmod_facts[of 365 r4] C(2) by simp_all
  have b4: "b \<le> 4" using A(3) B(1,2) by linarith
  have c24: "c \<le> 24" using B(3) C(1,2) by linarith
  have e4: "e \<le> 4" using C(3) E(1,2) by linarith
  have nN: "n = N + 1" by (simp add: N_def)
  let ?lp = "e = 3 \<and> (c \<noteq> 24 \<or> b = 3)"
  have shape: "ord2ymd n =
    (if e = 4 \<or> b = 4 then (400 * a + 100 * b + 4 * c + e + 1 - 1, 12, 31)
     else (400 * a + 100 * b + 4 * c + e + 1, fst (month_day ?lp r1), snd (month_day ?lp r1)))"
    unfolding N_def a_def r400_def b_def r100_def c_def r4_def e_def r1_def
    by (rule ord2ymd_shape)
  show ?thesis
  proof (cases "e = 4 \<or> b = 4")
    case False
    then have b3: "b \<le> 3" and e3: "e \<le> 3" using b4 e4 by auto
    define Y where "Y = 400 * a + 100 * b + 4 * c + e + 1"
    define lp where "lp = (e = 3 \<and> (c \<noteq> 24 \<or> b = 3))"
    define m where "m = fst (month_day lp r1)"
    define d where "d = snd (month_day lp r1)"
    have dby: "days_before_year Y = 146097 * a + 36524 * b + 1461 * c + 365 * e"
      unfolding Y_def by (rule dby_decomp) (use B C E b3 c24 e3 in auto)
    have lp: "is_leap Y = lp"
      unfolding Y_def lp_def by (rule leap_decomp) (use B C E b3 c24 e3 in auto)
    have md: "1 \<le> m \<and> m \<le> 12 \<and> 1 \<le> d
        \<and> d \<le> DAYS_IN_MONTH m + (if m = 2 \<and> lp then 1 else 0)
        \<and> DAYS_BEFORE_MONTH m + (if m > 2 \<and> lp then 1 else 0) + d = r1 + 1"
      unfolding m_def d_def by (rule month_day_ok) (use E in auto)
    have dim: "days_in_month Y m = DAYS_IN_MONTH m + (if m = 2 \<and> lp then 1 else 0)"
      unfolding dim_alt lp ..
    have "ymd2ord Y m d = (146097 * a + 36524 * b + 1461 * c + 365 * e) + (r1 + 1)"
      unfolding ymd2ord_def days_before_month_def lp dby using md by simp
    also have "\<dots> = n" using A(1) B(1) C(1) E(1) nN by simp
    finally have ord: "ymd2ord Y m d = n" .
    have Y1: "1 \<le> Y" unfolding Y_def using A(4) B(4) C(4) E(4) by simp
    have "ord2ymd n = (Y, m, d)" unfolding shape Y_def m_def d_def lp_def using False by simp
    then show ?thesis using Y1 md dim ord by simp
  next
    case True
    show ?thesis
    proof (cases "b = 4")
      case b: True
      have "r100 = 0" using A(3) B(1,2) b by linarith
      then have "c = 0" "r4 = 0" using C(1,2,4) by auto
      then have "e = 0" "r1 = 0" using E(1,2,4) by auto
      note z = \<open>r100 = 0\<close> \<open>c = 0\<close> \<open>r4 = 0\<close> \<open>e = 0\<close> \<open>r1 = 0\<close>
      have Y: "400 * a + 100 * b + 4 * c + e + 1 - 1 = 400 * a + 100 * 3 + 4 * 24 + 3 + 1"
        using b z by simp
      have dby: "days_before_year (400 * a + 100 * 3 + 4 * 24 + 3 + 1) = 146097 * a + 36524 * 3 + 1461 * 24 + 365 * 3"
        by (rule dby_decomp) auto
      have lp: "is_leap (400 * a + 100 * 3 + 4 * 24 + 3 + 1) = (3 = (3::int) \<and> (24 \<noteq> (24::int) \<or> 3 = (3::int)))"
        by (rule leap_decomp) auto
      have "N = 146097 * a + 146096" using A(1) B(1) b z by simp
      then have ord: "ymd2ord (400 * a + 100 * 3 + 4 * 24 + 3 + 1) 12 31 = n"
        unfolding ymd2ord_def days_before_month_def lp dby using nN
        by (simp add: DAYS_BEFORE_MONTH_def)
      have dim: "days_in_month (400 * a + 100 * 3 + 4 * 24 + 3 + 1) 12 = 31"
        by (simp add: days_in_month_def DAYS_IN_MONTH_def)
      have "1 \<le> 400 * a + 100 * 3 + 4 * 24 + 3 + 1" using A(4) by simp
      then show ?thesis using True ord dim unfolding shape Y by simp
    next
      case bn: False
      then have e: "e = 4" and b3: "b \<le> 3" using True b4 by auto
      have r1: "r1 = 0" using C(3) E(1,2) e by linarith
      have c23: "c \<le> 23" using B(3) C(1) E(1) e r1 by linarith
      have Y: "400 * a + 100 * b + 4 * c + e + 1 - 1 = 400 * a + 100 * b + 4 * c + 3 + 1"
        using e by simp
      have dby: "days_before_year (400 * a + 100 * b + 4 * c + 3 + 1) = 146097 * a + 36524 * b + 1461 * c + 365 * 3"
        by (rule dby_decomp) (use B C b3 c23 in auto)
      have lp: "is_leap (400 * a + 100 * b + 4 * c + 3 + 1) = (3 = (3::int) \<and> (c \<noteq> 24 \<or> b = 3))"
        by (rule leap_decomp) (use B C b3 c23 in auto)
      have lp': "is_leap (400 * a + 100 * b + 4 * c + 3 + 1)" unfolding lp using c23 by simp
      have "N = 146097 * a + 36524 * b + 1461 * c + 1460" using A(1) B(1) C(1) E(1) e r1 by simp
      then have ord: "ymd2ord (400 * a + 100 * b + 4 * c + 3 + 1) 12 31 = n"
        unfolding ymd2ord_def days_before_month_def dby using nN lp'
        by (simp add: DAYS_BEFORE_MONTH_def)
      have dim: "days_in_month (400 * a + 100 * b + 4 * c + 3 + 1) 12 = 31"
        by (simp add: days_in_month_def DAYS_IN_MONTH_def)
      have "1 \<le> 400 * a + 100 * b + 4 * c + 3 + 1" using A(4) B(4) C(4) by simp
      then show ?thesis using True ord dim unfolding shape Y by simp
    qed
  qed
qed


lemma month_cases:
  assumes "1 \<le> m" "m \<le> (12::int)"
  obtains "m = 1" | "m = 2" | "m = 3" | "m = 4" | "m = 5" | "m = 6"
    | "m = 7" | "m = 8" | "m = 9" | "m = 10" | "m = 11" | "m = 12"
proof -
  have "m = 1 \<or> m = 2 \<or> m = 3 \<or> m = 4 \<or> m = 5 \<or> m = 6 \<or> m = 7 \<or> m = 8 \<or> m = 9
      \<or> m = 10 \<or> m = 11 \<or> m = 12" using assms by presburger
  then show ?thesis using that by blast
qed

lemma dbm_next:
  assumes "1 \<le> m" "m \<le> 12"
  shows "days_before_month y m + days_in_month y m =
           (if m = 12 then 365 + (if is_leap y then 1 else 0) else days_before_month y (m + 1))"
  using assms(1,2)
  by (rule month_cases)
     (simp_all add: days_before_month_def days_in_month_def DAYS_BEFORE_MONTH_def DAYS_IN_MONTH_def)

lemma DBM_step: "DAYS_BEFORE_MONTH m \<le> DAYS_BEFORE_MONTH (m + 1)"
proof -
  consider "m \<le> 0" | "12 \<le> m" | "1 \<le> m" "m \<le> 11" by linarith
  then show ?thesis
  proof cases
    case 1 then show ?thesis by (simp add: DAYS_BEFORE_MONTH_def)
  next
    case 2 then show ?thesis by (simp add: DAYS_BEFORE_MONTH_def)
  next
    case 3
    then have "1 \<le> m" "m \<le> 12" by simp_all
    then show ?thesis by (rule month_cases) (simp_all add: DAYS_BEFORE_MONTH_def)
  qed
qed

lemma DBM_mono_aux: "DAYS_BEFORE_MONTH m \<le> DAYS_BEFORE_MONTH (m + int k)"
proof (induction k)
  case 0 show ?case by simp
next
  case (Suc k)
  from DBM_step[of "m + int k"] Suc show ?case by (simp add: algebra_simps)
qed

lemma DBM_mono: "m \<le> m' \<Longrightarrow> DAYS_BEFORE_MONTH m \<le> DAYS_BEFORE_MONTH m'"
  using DBM_mono_aux[of m "nat (m' - m)"] by simp

lemma dbm_mono: "m \<le> m' \<Longrightarrow> days_before_month y m \<le> days_before_month y m'"
  unfolding days_before_month_def using DBM_mono[of m m'] by (simp split: if_splits)

lemma dbm_last: "m \<le> 12 \<Longrightarrow> days_before_month y m + days_in_month y m \<le> 365 + (if is_leap y then 1 else 0)"
  unfolding days_before_month_def days_in_month_def DAYS_BEFORE_MONTH_def DAYS_IN_MONTH_def
  by (simp split: if_splits)

lemma dbm_nonneg: "0 \<le> days_before_month y m"
  unfolding days_before_month_def DAYS_BEFORE_MONTH_def by (simp split: if_splits)

lemma ymd2ord_bounds:
  assumes "1 \<le> m" "m \<le> 12" "1 \<le> d" "d \<le> days_in_month y m"
  shows "days_before_year y < ymd2ord y m d" "ymd2ord y m d \<le> days_before_year (y + 1)"
proof -
  show "days_before_year y < ymd2ord y m d"
    unfolding ymd2ord_def using dbm_nonneg[of y m] assms(3) by linarith
  show "ymd2ord y m d \<le> days_before_year (y + 1)"
    unfolding ymd2ord_def dby_step using dbm_last[OF assms(2), of y] assms(4) by linarith
qed

lemma ymd2ord_inj:
  assumes v: "1 \<le> m" "m \<le> 12" "1 \<le> d" "d \<le> days_in_month y m"
    and v': "1 \<le> m'" "m' \<le> 12" "1 \<le> d'" "d' \<le> days_in_month y' m'"
    and eq: "ymd2ord y m d = ymd2ord y' m' d'"
  shows "y = y' \<and> m = m' \<and> d = d'"
proof -
  have y: "y = y'"
  proof (rule ccontr)
    assume "y \<noteq> y'"
    then consider "y < y'" | "y' < y" by linarith
    then show False
    proof cases
      case 1
      from dby_mono[OF 1] ymd2ord_bounds(2)[OF v] ymd2ord_bounds(1)[OF v'] eq show False by linarith
    next
      case 2
      from dby_mono[OF 2] ymd2ord_bounds(2)[OF v'] ymd2ord_bounds(1)[OF v] eq show False by linarith
    qed
  qed
  have off: "days_before_month y m + d = days_before_month y m' + d'"
    using eq unfolding ymd2ord_def y by simp
  have m: "m = m'"
  proof (rule ccontr)
    assume "m \<noteq> m'"
    then consider "m < m'" | "m' < m" by linarith
    then show False
    proof cases
      case 1
      then have "m \<noteq> 12" using v'(2) by simp
      with dbm_next[OF v(1,2), of y] have "days_before_month y m + days_in_month y m = days_before_month y (m + 1)" by simp
      moreover have "days_before_month y (m + 1) \<le> days_before_month y m'" using 1 by (intro dbm_mono) simp
      ultimately show False using off v(4) v'(3) by linarith
    next
      case 2
      then have "m' \<noteq> 12" using v(2) by simp
      with dbm_next[OF v'(1,2), of y'] have "days_before_month y m' + days_in_month y m' = days_before_month y (m' + 1)" 
        unfolding y by simp
      moreover have "days_before_month y (m' + 1) \<le> days_before_month y m" using 2 by (intro dbm_mono) simp
      ultimately show False using off v'(4) v(3) unfolding y by linarith
    qed
  qed
  show ?thesis using y m off by simp
qed

lemma dby_nonneg: "1 \<le> y \<Longrightarrow> 0 \<le> days_before_year y"
proof -
  assume "1 \<le> y"
  then consider "y = 1" | "0 < y - 1" by linarith
  then show ?thesis
  proof cases
    case 1 then show ?thesis by (simp add: days_before_year_def)
  next
    case 2
    have "days_before_year (0 + 1) \<le> days_before_year y" by (rule dby_mono) (use 2 in simp)
    then show ?thesis by (simp add: days_before_year_def)
  qed
qed

lemma ymd2ord_pos:
  assumes "valid_ymd y m d" shows "1 \<le> ymd2ord y m d"
  using assms dby_nonneg[of y] dbm_nonneg[of y m] unfolding valid_ymd_def ymd2ord_def MINYEAR_def by linarith

lemma ymd2ord_max:
  assumes "valid_ymd y m d" shows "ymd2ord y m d \<le> MAXORDINAL"
proof -
  from assms have v: "1 \<le> m" "m \<le> 12" "1 \<le> d" "d \<le> days_in_month y m" and y: "y \<le> 9999"
    by (simp_all add: valid_ymd_def MAXYEAR_def)
  have "days_before_year (y + 1) \<le> days_before_year 10000"
  proof (cases "y = 9999")
    case True then show ?thesis by simp
  next
    case False
    then have "y < 9999" using y by simp
    from dby_mono[OF this] have "days_before_year (y + 1) \<le> days_before_year 9999" .
    also have "\<dots> \<le> days_before_year 10000" by (simp add: days_before_year_def)
    finally show ?thesis .
  qed
  moreover have "days_before_year 10000 = MAXORDINAL" by (simp add: days_before_year_def MAXORDINAL_def)
  ultimately show ?thesis using ymd2ord_bounds(2)[OF v] by linarith
qed

lemma ord2ymd_ymd2ord:
  assumes "valid_ymd y m d"
  shows "ord2ymd (ymd2ord y m d) = (y, m, d)"
proof -
  obtain y' m' d' where o: "ord2ymd (ymd2ord y m d) = (y', m', d')" by (cases "ord2ymd (ymd2ord y m d)")
  from ord2ymd_ok[OF ymd2ord_pos[OF assms]] o
  have v': "1 \<le> m'" "m' \<le> 12" "1 \<le> d'" "d' \<le> days_in_month y' m'"
    and eq: "ymd2ord y' m' d' = ymd2ord y m d" by simp_all
  from assms have v: "1 \<le> m" "m \<le> 12" "1 \<le> d" "d \<le> days_in_month y m"
    by (simp_all add: valid_ymd_def)
  from ymd2ord_inj[OF v' v eq] o show ?thesis by simp
qed

lemma ord2ymd_valid:
  assumes "1 \<le> n" "n \<le> MAXORDINAL"
  shows "case ord2ymd n of (y, m, d) \<Rightarrow> valid_ymd y m d \<and> ymd2ord y m d = n"
proof -
  obtain y m d where o: "ord2ymd n = (y, m, d)" by (cases "ord2ymd n")
  from ord2ymd_ok[OF assms(1)] o
  have v: "1 \<le> y" "1 \<le> m" "m \<le> 12" "1 \<le> d" "d \<le> days_in_month y m"
    and eq: "ymd2ord y m d = n" by simp_all
  have "y \<le> 9999"
  proof (rule ccontr)
    assume "\<not> y \<le> 9999"
    then have "9999 < y" by simp
    from dby_mono[OF this] have "days_before_year 10000 \<le> days_before_year y" by simp
    moreover have "days_before_year 10000 = MAXORDINAL" by (simp add: days_before_year_def MAXORDINAL_def)
    ultimately show False using ymd2ord_bounds(1)[OF v(2-5)] eq assms(2) by linarith
  qed
  then show ?thesis using v eq o by (simp add: valid_ymd_def MINYEAR_def MAXYEAR_def)
qed


section \<open>Dates of a \<open>datetime\<close>\<close>

lemma valid_datetime_ymd:
  assumes "valid_datetime dt"
  shows "valid_ymd (year dt) (month dt) (day dt)"
    and "ymd2ord (year dt) (month dt) (day dt) = ordinal dt"
  using ord2ymd_valid[of "ordinal dt"] assms
  by (auto simp: valid_datetime_def year_def month_def day_def split: prod.splits)

lemma ymd_of_ymd2ord:
  assumes "valid_ymd y m d" "ordinal dt = ymd2ord y m d"
  shows "year dt = y" "month dt = m" "day dt = d"
  using ord2ymd_ymd2ord[OF assms(1)] assms(2) by (simp_all add: year_def month_def day_def)

lemma valid_ymd_datetime:
  assumes "valid_ymd y m d" "ordinal dt = ymd2ord y m d"
  shows "valid_datetime dt"
  using ymd2ord_pos[OF assms(1)] ymd2ord_max[OF assms(1)] assms(2) by (simp add: valid_datetime_def)

lemma isoformat_ymd2ord:
  "valid_ymd y m d \<Longrightarrow>
     isoformat (ymd2ord y m d) = zero_pad 4 y @ ''-'' @ zero_pad 2 m @ ''-'' @ zero_pad 2 d"
  by (simp add: isoformat_def ord2ymd_ymd2ord)

lemma start_of_day_simps:
  "ordinal (start_of_day ref) = ordinal ref"
  "valid_datetime (start_of_day ref) = valid_datetime ref"
  "year (start_of_day ref) = year ref" "month (start_of_day ref) = month ref"
  "day (start_of_day ref) = day ref" "weekday (start_of_day ref) = weekday ref"
  by (simp_all add: start_of_day_def valid_datetime_def year_def month_def day_def weekday_def)

section \<open>Unfolding \<open>resolve\<close>\<close>

lemma resolve_parsed:
  assumes "normalize e = (expr, False)"
    and "first_match grammars expr (start_of_day ref) = Inr (Some (parsed, desc))"
    and "\<not> list_ex (contains (lower e)) time_keywords"
  shows "resolve e ref =
     Inr (ResultDict
       \<lparr>date = isoformat (ordinal parsed), day_of_week = strftime_A (ordinal parsed),
        expression = e, description = desc,
        days_from_today = ordinal parsed - ordinal ref, warning = None\<rparr>)"
  using assms by (simp add: resolve_def Let_def start_of_day_simps)

lemma resolve_raises:
  assumes "normalize e = (expr, b)"
    and "first_match grammars expr (start_of_day ref) = Inl err"
  shows "resolve e ref = Inl err"
  using assms by (simp add: resolve_def Let_def)

lemma resolve_unparsed:
  assumes "normalize e = (expr, b)"
    and "first_match grammars expr (start_of_day ref) = Inr None"
  shows "resolve e ref = Inr (ErrorDict (''Could not parse: '' @ [CHR 0x27] @ e @ [CHR 0x27]))"
  using assms by (simp add: resolve_def Let_def)

section \<open>Results are dates of the calendar\<close>

lemma add_days_valid: "add_days d k = Inr d' \<Longrightarrow> valid_datetime d'"
  by (auto simp: add_days_def valid_datetime_def Let_def split: if_splits)

lemma replace_valid: "replace dt y m d = Inr d' \<Longrightarrow> valid_datetime d'"
  by (auto simp: replace_def split: if_splits intro: valid_ymd_datetime)

lemma mk_datetime_valid: "mk_datetime y m d = Inr d' \<Longrightarrow> valid_datetime d'"
  by (auto simp: mk_datetime_def at_midnight_def split: if_splits intro: valid_ymd_datetime)

lemma parsed_as_Some: "parsed_as r desc = Inr (Some (p, d)) \<Longrightarrow> r = Inr p"
  by (auto simp: parsed_as_def split: sum.splits)

lemma next_weekday_valid: "next_weekday wd ref w = Inr d' \<Longrightarrow> valid_datetime d'"
  by (auto simp: next_weekday_def Let_def dest: add_days_valid)

lemma prev_weekday_valid: "prev_weekday wd ref w = Inr d' \<Longrightarrow> valid_datetime d'"
  by (auto simp: prev_weekday_def Let_def dest: add_days_valid)

lemma add_months_valid: "add_months dt n = Inr d' \<Longrightarrow> valid_datetime d'"
  by (auto simp: add_months_def Let_def dest: replace_valid)

lemma business_loop_valid:
  "valid_datetime d \<Longrightarrow> business_loop d added count = Inr d' \<Longrightarrow> valid_datetime d'"
proof (induction d added count rule: business_loop.induct)
  case (1 d added count)
  show ?case
  proof (cases "added < count")
    case False
    with "1.prems" show ?thesis by (simp add: business_loop.simps[of d])
  next
    case True
    with "1.prems"(2) obtain d1 where d1: "add_days d 1 = Inr d1"
      and loop: "business_loop d1 (if weekday d1 < 5 then added + 1 else added) count = Inr d'"
      by (simp add: business_loop.simps[of d] split: sum.splits)
    from "1.IH"[OF True d1 add_days_valid[OF d1] loop] show ?thesis .
  qed
qed

lemma weekend_loop_valid:
  "valid_datetime d \<Longrightarrow> weekend_loop d = Inr d' \<Longrightarrow> valid_datetime d'"
proof (induction d rule: weekend_loop.induct)
  case (1 d)
  show ?case
  proof (cases "5 \<le> weekday d")
    case False
    with "1.prems" show ?thesis by (simp add: weekend_loop.simps[of d])
  next
    case True
    with "1.prems"(2) obtain d1 where d1: "add_days d 1 = Inr d1"
      and loop: "weekend_loop d1 = Inr d'"
      by (simp add: weekend_loop.simps[of d] split: sum.splits)
    from "1.IH"[OF True d1 add_days_valid[OF d1] loop] show ?thesis .
  qed
qed

lemmas date_valid = add_days_valid replace_valid mk_datetime_valid next_weekday_valid
  prev_weekday_valid add_months_valid

lemma except_ValueError_Some: "except_ValueError r = Inr (Some x) \<Longrightarrow> r = Inr (Some x)"
  by (auto simp: except_ValueError_def split: sum.splits py_error.splits)

lemma yv_None: "yields_valid (Inr None)"
  and yv_Inl: "yields_valid (Inl e)"
  and yv_Some: "valid_datetime p \<Longrightarrow> yields_valid (Inr (Some (p, desc)))"
  by (simp_all add: yields_valid_def)

lemma yv_if: "yields_valid a \<Longrightarrow> yields_valid b \<Longrightarrow> yields_valid (if c then a else b)"
  by simp

lemma yv_parsed_as: "(\<And>d. r = Inr d \<Longrightarrow> valid_datetime d) \<Longrightarrow> yields_valid (parsed_as r desc)"
  by (auto simp: yields_valid_def dest: parsed_as_Some)

lemma yv_option:
  "yields_valid a \<Longrightarrow> (\<And>m. yields_valid (f m)) \<Longrightarrow> yields_valid (case x of None \<Rightarrow> a | Some m \<Rightarrow> f m)"
  by (cases x) simp_all

lemma yv_sum:
  "(\<And>e. yields_valid (f e)) \<Longrightarrow> (\<And>v. x = Inr v \<Longrightarrow> yields_valid (g v))
    \<Longrightarrow> yields_valid (case x of Inl e \<Rightarrow> f e | Inr v \<Rightarrow> g v)"
  by (cases x) simp_all

lemma yv_except: "yields_valid r \<Longrightarrow> yields_valid (except_ValueError r)"
  by (auto simp: yields_valid_def dest: except_ValueError_Some)

lemmas yv_intros = yv_if yv_None yv_Inl yv_parsed_as yv_option yv_sum yv_except

lemma yv_D: "yields_valid r \<Longrightarrow> r = Inr (Some (p, desc)) \<Longrightarrow> valid_datetime p"
  by (simp add: yields_valid_def)

lemma fixed_words_valid:
  "valid_datetime today \<Longrightarrow> yields_valid (fixed_words expr today)"
  unfolding fixed_words_def Let_def
  by (intro yv_intros yv_Some) (erule date_valid | assumption)+

lemma modifier_weekday_valid: "yields_valid (modifier_weekday expr today)"
  unfolding modifier_weekday_def Let_def
  by (intro yv_intros) (erule date_valid)+

lemma counted_from_now_valid: "yields_valid (counted_from_now expr today)"
  unfolding counted_from_now_def Let_def
  by (intro yv_intros) (erule date_valid)+

lemma in_business_days_valid:
  "valid_datetime today \<Longrightarrow> yields_valid (in_business_days expr today)"
  unfolding in_business_days_def Let_def
  by (intro yv_intros) (erule (1) business_loop_valid)

lemma in_units_valid: "yields_valid (in_units expr today)"
  unfolding in_units_def Let_def
  by (intro yv_intros) (erule date_valid)+

lemma units_ago_valid: "yields_valid (units_ago expr today)"
  unfolding units_ago_def Let_def
  by (intro yv_intros) (erule date_valid)+

lemma a_unit_from_now_valid: "yields_valid (a_unit_from_now expr today)"
  unfolding a_unit_from_now_def Let_def
  by (intro yv_intros) (erule date_valid)+

lemma next_business_day_valid: "yields_valid (next_business_day expr today)"
  unfolding next_business_day_def
  by (intro yv_intros) (erule weekend_loop_valid[OF add_days_valid, rotated], assumption)

lemma bare_weekday_valid: "yields_valid (bare_weekday expr today)"
  unfolding bare_weekday_def
  by (intro yv_intros) (erule date_valid)+

lemma month_day_date_valid: "yields_valid (month_day_date name ds yg today)"
  unfolding month_day_date_def Let_def
  by (intro yv_intros yv_Some) (erule date_valid)+

lemma month_then_day_valid: "yields_valid (month_then_day expr today)"
  unfolding month_then_day_def by (intro yv_intros month_day_date_valid)

lemma day_then_month_valid: "yields_valid (day_then_month expr today)"
  unfolding day_then_month_def by (intro yv_intros month_day_date_valid)

lemma iso_date_valid: "yields_valid (iso_date expr today)"
  unfolding iso_date_def
  by (intro yv_intros) (erule date_valid)+

lemma first_match_Some:
  "first_match gs expr today = Inr (Some x) \<Longrightarrow> \<exists>g \<in> set gs. g expr today = Inr (Some x)"
  by (induction gs) (auto split: sum.splits option.splits)

lemma grammars_valid:
  assumes "valid_datetime today" "first_match grammars expr today = Inr (Some (p, desc))"
  shows "valid_datetime p"
proof -
  from first_match_Some[OF assms(2)] obtain g
    where g: "g \<in> set grammars" "g expr today = Inr (Some (p, desc))" by blast
  from g(1) consider "g = fixed_words" | "g = modifier_weekday" | "g = counted_from_now"
    | "g = in_business_days" | "g = in_units" | "g = units_ago" | "g = a_unit_from_now"
    | "g = next_business_day" | "g = bare_weekday" | "g = month_then_day"
    | "g = day_then_month" | "g = iso_date"
    unfolding grammars_def by auto
  then have "yields_valid (g expr today)"
    using assms(1)
    by cases (simp_all add: fixed_words_valid modifier_weekday_valid counted_from_now_valid
        in_business_days_valid in_units_valid units_ago_valid a_unit_from_now_valid
        next_business_day_valid bare_weekday_valid month_then_day_valid day_then_month_valid
        iso_date_valid)
  from yv_D[OF this g(2)] show ?thesis .
qed

section \<open>The offset in days\<close>

lemma resolve_ResultDict:
  assumes "resolve e ref = Inr (ResultDict r)"
  obtains parsed desc where
    "first_match grammars (fst (normalize e)) (start_of_day ref) = Inr (Some (parsed, desc))"
    "date r = isoformat (ordinal parsed)" "days_from_today r = ordinal parsed - ordinal ref"
    "expression r = e" "description r = desc" "day_of_week r = strftime_A (ordinal parsed)"
  using assms unfolding resolve_def Let_def
  by (auto split: prod.splits sum.splits option.splits simp: start_of_day_simps)

text \<open>
  C5: whenever \<open>resolve\<close> returns a resolution, its \<open>date\<close> is the ISO text of a date
  y-m-d of the calendar, and \<open>days_from_today\<close> is the number of days from the date of
  the reference (its time of day dropped) to that date.
\<close>

theorem days_from_today_is_date_difference:
  assumes "valid_datetime ref" and "resolve e ref = Inr (ResultDict r)"
  shows "\<exists>y m d. valid_ymd y m d
           \<and> date r = zero_pad 4 y @ ''-'' @ zero_pad 2 m @ ''-'' @ zero_pad 2 d
           \<and> days_from_today r = ymd2ord y m d - ordinal ref"
proof -
  from assms(2) obtain parsed desc where
    fm: "first_match grammars (fst (normalize e)) (start_of_day ref) = Inr (Some (parsed, desc))"
    and r: "date r = isoformat (ordinal parsed)" "days_from_today r = ordinal parsed - ordinal ref"
    by (rule resolve_ResultDict)
  have "valid_datetime parsed"
    using grammars_valid[OF _ fm] assms(1) by (simp add: start_of_day_simps)
  from valid_datetime_ymd[OF this] have v: "valid_ymd (year parsed) (month parsed) (day parsed)"
    and o: "ymd2ord (year parsed) (month parsed) (day parsed) = ordinal parsed" .
  from isoformat_ymd2ord[OF v] r o show ?thesis
    by (intro exI[of _ "year parsed"] exI[of _ "month parsed"] exI[of _ "day parsed"]) (simp add: v)
qed

section \<open>Zero business days\<close>

lemma in_0_normalize: "normalize ''in 0 business days'' = (''in 0 business days'', False)"
  by code_simp

lemma in_0_patterns:
  "re_match modifier_pattern ''in 0 business days'' = None"
  "re_match from_now_pattern ''in 0 business days'' = None"
  "map_option (\<lambda>m. group_str m 1) (re_match business_pattern ''in 0 business days'') = Some ''0''"
  by code_simp+

lemma in_0_count: "py_int ''0'' = Inr 0" "str_int 0 = ''0''"
  by code_simp+

lemma in_0_keywords: "\<not> list_ex (contains (lower ''in 0 business days'')) time_keywords"
  by code_simp

lemma in_0_resolve:
  "resolve ''in 0 business days'' ref =
     Inr (ResultDict
       \<lparr>date = isoformat (ordinal ref), day_of_week = strftime_A (ordinal ref),
        expression = ''in 0 business days'', description = ''in 0 business day(s)'',
        days_from_today = 0, warning = None\<rparr>)"
proof -
  let ?e = "''in 0 business days''"
  let ?today = "start_of_day ref"
  have 1: "fixed_words ?e ?today = Inr None" by (simp add: fixed_words_def)
  have 2: "modifier_weekday ?e ?today = Inr None" by (simp add: modifier_weekday_def in_0_patterns)
  have 3: "counted_from_now ?e ?today = Inr None" by (simp add: counted_from_now_def in_0_patterns)
  obtain m where m: "re_match business_pattern ?e = Some m" "group_str m 1 = ''0''"
    using in_0_patterns(3) by auto
  have 4: "in_business_days ?e ?today = Inr (Some (?today, ''in 0 business day(s)''))"
    using m by (simp add: in_business_days_def in_0_count parsed_as_def business_loop.simps[of _ 0 0])
  have "first_match grammars ?e ?today = Inr (Some (?today, ''in 0 business day(s)''))"
    by (simp add: grammars_def 1 2 3 4)
  from resolve_parsed[OF in_0_normalize this in_0_keywords] show ?thesis
    by (simp add: start_of_day_simps)
qed

text \<open>
  C10: for every reference date, \<open>"in 0 business days"\<close> resolves, without any step of
  the loop, to the reference date itself with \<open>days_from_today = 0\<close>; the day of the
  week of the reference date plays no part.
\<close>

theorem in_0_business_days_is_today:
  "resolve ''in 0 business days'' ref =
     Inr (ResultDict
       \<lparr>date = isoformat (ordinal ref), day_of_week = strftime_A (ordinal ref),
        expression = ''in 0 business days'', description = ''in 0 business day(s)'',
        days_from_today = 0, warning = None\<rparr>)"
  by (rule in_0_resolve)

section \<open>Blocks whose pattern does not match\<close>

lemma modifier_weekday_no_match:
  "re_match modifier_pattern expr = None \<Longrightarrow> modifier_weekday expr today = Inr None"
  by (simp add: modifier_weekday_def)

lemma counted_from_now_no_match:
  "re_match from_now_pattern expr = None \<Longrightarrow> counted_from_now expr today = Inr None"
  by (simp add: counted_from_now_def)

lemma in_business_days_no_match:
  "re_match business_pattern expr = None \<Longrightarrow> in_business_days expr today = Inr None"
  by (simp add: in_business_days_def)

lemma in_units_no_match:
  "re_match in_units_pattern expr = None \<Longrightarrow> in_units expr today = Inr None"
  by (simp add: in_units_def)

lemma units_ago_no_match:
  "re_match ago_pattern expr = None \<Longrightarrow> units_ago expr today = Inr None"
  by (simp add: units_ago_def)

lemma a_unit_from_now_no_match:
  "re_match a_unit_pattern expr = None \<Longrightarrow> a_unit_from_now expr today = Inr None"
  by (simp add: a_unit_from_now_def)

lemma bare_weekday_no_match:
  "map_of WEEKDAYS expr = None \<Longrightarrow> bare_weekday expr today = Inr None"
  by (simp add: bare_weekday_def)

lemma month_then_day_no_match:
  "re_match month_day_pattern expr = None \<Longrightarrow> month_then_day expr today = Inr None"
  by (simp add: month_then_day_def)

lemma day_then_month_no_match:
  "re_match day_month_pattern expr = None \<Longrightarrow> day_then_month expr today = Inr None"
  by (simp add: day_then_month_def)

lemma iso_date_no_match:
  "re_match iso_pattern expr = None \<Longrightarrow> iso_date expr today = Inr None"
  by (simp add: iso_date_def)

lemmas no_match = modifier_weekday_no_match counted_from_now_no_match in_business_days_no_match
  in_units_no_match units_ago_no_match a_unit_from_now_no_match bare_weekday_no_match
  month_then_day_no_match day_then_month_no_match iso_date_no_match

section \<open>Unrecognized expressions\<close>

lemma not_a_date_normalize: "normalize ''not a date'' = (''not a date'', False)"
  by code_simp

lemma not_a_date_patterns:
  "re_match modifier_pattern ''not a date'' = None"
  "re_match from_now_pattern ''not a date'' = None"
  "re_match business_pattern ''not a date'' = None"
  "re_match in_units_pattern ''not a date'' = None"
  "re_match ago_pattern ''not a date'' = None"
  "re_match a_unit_pattern ''not a date'' = None"
  "map_of WEEKDAYS ''not a date'' = None"
  "re_match month_day_pattern ''not a date'' = None"
  "re_match day_month_pattern ''not a date'' = None"
  "re_match iso_pattern ''not a date'' = None"
  by code_simp+

lemma not_a_date_chain: "first_match grammars ''not a date'' today = Inr None"
proof -
  have "fixed_words ''not a date'' today = Inr None" by (simp add: fixed_words_def)
  moreover have "next_business_day ''not a date'' today = Inr None"
    by (simp add: next_business_day_def)
  ultimately show ?thesis
    by (simp add: grammars_def no_match not_a_date_patterns)
qed

text \<open>The error dictionary is returned exactly when no block sets \<open>parsed\<close>.\<close>

lemma error_dict_when_unparsed:
  "(first_match grammars (fst (normalize e)) (start_of_day ref) = Inr None \<longrightarrow>
      resolve e ref = Inr (ErrorDict (''Could not parse: '' @ [CHR 0x27] @ e @ [CHR 0x27])))
   \<and> (resolve e ref = Inr (ErrorDict msg) \<longrightarrow>
        first_match grammars (fst (normalize e)) (start_of_day ref) = Inr None
        \<and> msg = ''Could not parse: '' @ [CHR 0x27] @ e @ [CHR 0x27])
   \<and> resolve ''not a date'' ref =
        Inr (ErrorDict (''Could not parse: '' @ [CHR 0x27] @ ''not a date'' @ [CHR 0x27]))"
proof (intro conjI impI)
  assume "first_match grammars (fst (normalize e)) (start_of_day ref) = Inr None"
  then show "resolve e ref = Inr (ErrorDict (''Could not parse: '' @ [CHR 0x27] @ e @ [CHR 0x27]))"
    by (intro resolve_unparsed[of e "fst (normalize e)" "snd (normalize e)"]) simp_all
next
  assume r: "resolve e ref = Inr (ErrorDict msg)"
  then show "first_match grammars (fst (normalize e)) (start_of_day ref) = Inr None"
    unfolding resolve_def Let_def by (auto split: prod.splits sum.splits option.splits)
  from r show "msg = ''Could not parse: '' @ [CHR 0x27] @ e @ [CHR 0x27]"
    unfolding resolve_def Let_def by (auto split: prod.splits sum.splits option.splits)
next
  show "resolve ''not a date'' ref =
        Inr (ErrorDict (''Could not parse: '' @ [CHR 0x27] @ ''not a date'' @ [CHR 0x27]))"
    by (rule resolve_unparsed[OF not_a_date_normalize not_a_date_chain])
qed





section \<open>Day arithmetic\<close>

lemma weekday_range: "0 \<le> weekday d" "weekday d \<le> 6"
  by (simp_all add: weekday_def)

lemma add_days_small:
  assumes "- 999999999 \<le> k" "k \<le> 999999999"
  shows "add_days d k =
     (if 1 \<le> ordinal d + k \<and> ordinal d + k \<le> MAXORDINAL
      then Inr (d\<lparr>ordinal := ordinal d + k\<rparr>) else Inl OverflowError)"
  using assms by (simp add: add_days_def Let_def)

lemma add_days_forward:
  assumes "valid_datetime d" "0 \<le> k" "k \<le> 999999999"
  shows "add_days d k =
     (if ordinal d + k \<le> MAXORDINAL
      then Inr (d\<lparr>ordinal := ordinal d + k\<rparr>) else Inl OverflowError)"
  using assms by (simp add: add_days_small valid_datetime_def)


section \<open>End of the week\<close>

lemma fixed_words_hit:
  "fixed_words e today = Inr (Some p) \<Longrightarrow> first_match grammars e today = Inr (Some p)"
  "fixed_words e today = Inl err \<Longrightarrow> first_match grammars e today = Inl err"
  by (simp_all add: grammars_def)





section \<open>Start of next year\<close>

lemma next_year_strings:
  "normalize ''start of next year'' = (''start of next year'', False)"
  "normalize ''beginning of next year'' = (''beginning of next year'', False)"
  "normalize ''next year'' = (''next year'', False)"
  "\<not> list_ex (contains (lower ''start of next year'')) time_keywords"
  "\<not> list_ex (contains (lower ''beginning of next year'')) time_keywords"
  by code_simp+

lemma next_year_patterns:
  "map_option (\<lambda>m. (group_str m 1, group_str m 2)) (re_match modifier_pattern ''next year'')
     = Some (''next'', ''year'')"
  "map_of WEEKDAYS ''year'' = None"
  "re_match from_now_pattern ''next year'' = None"
  "re_match business_pattern ''next year'' = None"
  "re_match in_units_pattern ''next year'' = None"
  "re_match ago_pattern ''next year'' = None"
  "re_match a_unit_pattern ''next year'' = None"
  "map_of WEEKDAYS ''next year'' = None"
  "re_match month_day_pattern ''next year'' = None"
  "re_match day_month_pattern ''next year'' = None"
  "re_match iso_pattern ''next year'' = None"
  by code_simp+

lemma next_year_unparsed:
  "resolve ''next year'' ref =
     Inr (ErrorDict (''Could not parse: '' @ [CHR 0x27] @ ''next year'' @ [CHR 0x27]))"
proof -
  let ?today = "start_of_day ref"
  have 1: "fixed_words ''next year'' ?today = Inr None" by (simp add: fixed_words_def)
  obtain m where m: "re_match modifier_pattern ''next year'' = Some m"
    "group_str m 1 = ''next''" "group_str m 2 = ''year''"
    using next_year_patterns(1) by auto
  have 2: "modifier_weekday ''next year'' ?today = Inr None"
    using m by (simp add: modifier_weekday_def next_year_patterns(2))
  have 3: "next_business_day ''next year'' ?today = Inr None"
    by (simp add: next_business_day_def)
  have "first_match grammars ''next year'' ?today = Inr None"
    by (simp add: grammars_def 1 2 3 no_match next_year_patterns)
  from resolve_unparsed[OF next_year_strings(3) this] show ?thesis .
qed

lemma zero_pad_01: "zero_pad 2 1 = ''01''"
  by code_simp

lemma start_of_next_year_resolve:
  assumes v: "valid_datetime ref"
    and e: "e = ''start of next year'' \<or> e = ''beginning of next year''"
  shows "resolve e ref =
     (if year ref < MAXYEAR
      then Inr (ResultDict
        \<lparr>date = zero_pad 4 (year ref + 1) @ ''-01-01'',
         day_of_week = strftime_A (ymd2ord (year ref + 1) 1 1),
         expression = e, description = ''start of next year'',
         days_from_today = ymd2ord (year ref + 1) 1 1 - ordinal ref, warning = None\<rparr>)
      else Inl ValueError)"
proof -
  let ?today = "start_of_day ref"
  let ?y = "year ref + 1"
  have n: "normalize e = (e, False)"
    using e by (elim disjE) (simp_all only: next_year_strings)
  have kw: "\<not> list_ex (contains (lower e)) time_keywords"
    using e by (elim disjE) (simp_all only: next_year_strings not_False_eq_True)
  from valid_datetime_ymd(1)[OF v] have y: "1 \<le> year ref" "year ref \<le> 9999"
    by (simp_all add: valid_ymd_def MINYEAR_def MAXYEAR_def)
  have "fixed_words ''start of next year'' ?today
        = parsed_as (replace ?today (year ?today + 1) 1 1) ''start of next year''"
    and "fixed_words ''beginning of next year'' ?today
        = parsed_as (replace ?today (year ?today + 1) 1 1) ''start of next year''"
    by (simp_all add: fixed_words_def)
  then have fw: "fixed_words e ?today = parsed_as (replace ?today ?y 1 1) ''start of next year''"
    using e by (elim disjE) (simp_all only: start_of_day_simps)
  show ?thesis
  proof (cases "year ref < MAXYEAR")
    case True
    then have vy: "valid_ymd ?y 1 1"
      using y by (simp add: valid_ymd_def MINYEAR_def MAXYEAR_def days_in_month_def DAYS_IN_MONTH_def)
    then have "replace ?today ?y 1 1 = Inr (?today\<lparr>ordinal := ymd2ord ?y 1 1\<rparr>)"
      using y by (simp add: replace_def)
    with fw have "fixed_words e ?today =
        Inr (Some (?today\<lparr>ordinal := ymd2ord ?y 1 1\<rparr>, ''start of next year''))"
      by (simp add: parsed_as_def)
    from resolve_parsed[OF n fixed_words_hit(1)[OF this] kw] True isoformat_ymd2ord[OF vy]
    show ?thesis by (simp add: zero_pad_01)
  next
    case False
    then have "\<not> valid_ymd ?y 1 1" by (simp add: valid_ymd_def)
    then have "replace ?today ?y 1 1 = Inl ValueError"
      using y by (simp add: replace_def)
    with fw have "fixed_words e ?today = Inl ValueError" by (simp add: parsed_as_def)
    from resolve_raises[OF n fixed_words_hit(2)[OF this]] False show ?thesis by simp
  qed
qed


section \<open>Next weekday\<close>

lemma mod7_offset:
  fixes x :: int
  assumes "- 6 \<le> x" "x \<le> 6"
  shows "(x - 1) mod 7 + 1 = (if x \<le> 0 then x + 7 else x)"
proof (cases "x \<le> 0")
  case True
  have "(x - 1) mod 7 = x + 6"
    by (rule mod_eqI[where q = "- 1"]) (use assms True in auto)
  with True show ?thesis by simp
next
  case False
  have "(x - 1) mod 7 = x - 1"
    by (rule mod_eqI[where q = 0]) (use assms False in auto)
  with False show ?thesis by simp
qed

lemma next_weekday_offset:
  assumes "0 \<le> wd" "wd \<le> 6"
  shows "next_weekday wd d 0 = add_days d ((wd - weekday d - 1) mod 7 + 1)"
  using mod7_offset[of "wd - weekday d"] assms weekday_range[of d]
  by (simp add: next_weekday_def Let_def)

lemma offset_range: "1 \<le> (x - 1) mod 7 + 1" "(x - 1) mod 7 + 1 \<le> (7::int)"
  by simp_all

lemma offset_weekday:
  fixes n wd :: int
  assumes "0 \<le> wd" "wd \<le> 6"
  shows "(n + ((wd - (n + 6) mod 7 - 1) mod 7 + 1) + 6) mod 7 = wd"
proof -
  define r where "r = (n + 6) mod 7"
  have r: "0 \<le> r" "r \<le> 6" by (simp_all add: r_def)
  define k where "k = (wd - r - 1) mod 7 + 1"
  have k: "k = (if wd - r \<le> 0 then wd - r + 7 else wd - r)"
    unfolding k_def by (rule mod7_offset) (use assms r in auto)
  have "(n + k + 6) mod 7 = ((n + 6) + k) mod 7" by (simp add: algebra_simps)
  also have "\<dots> = (r + k) mod 7" unfolding r_def by (simp add: mod_add_left_eq)
  also have "\<dots> = wd"
  proof (cases "wd - r \<le> 0")
    case True
    then have "r + k = 7 * 1 + wd" using k by simp
    then show ?thesis using assms by (intro mod_eqI[where q = 1]) auto
  next
    case False
    then have "r + k = 7 * 0 + wd" using k by simp
    then show ?thesis using assms by (intro mod_eqI[where q = 0]) auto
  qed
  finally show ?thesis unfolding k_def r_def .
qed

lemma weekday_keys:
  "list_all (\<lambda>(w, wd). 0 \<le> wd \<and> wd \<le> 6) WEEKDAYS"
  "list_all (\<lambda>w. normalize (''next '' @ w) = (''next '' @ w, False)) (map fst WEEKDAYS)"
  "list_all (\<lambda>w. \<not> list_ex (contains (lower (''next '' @ w))) time_keywords) (map fst WEEKDAYS)"
  "list_all (\<lambda>w. case re_match modifier_pattern (''next '' @ w) of
                     None \<Rightarrow> False
                   | Some m \<Rightarrow> group_str m 1 = ''next'' \<and> group_str m 2 = w) (map fst WEEKDAYS)"
  "list_all (\<lambda>w. ''next '' @ w \<notin> set
       [''today'', ''now'', ''tomorrow'', ''yesterday'', ''day after tomorrow'',
        ''day before yesterday'', ''end of week'', ''end of this week'', ''this weekend'',
        ''start of next week'', ''beginning of next week'', ''next week'', ''end of month'',
        ''end of this month'', ''eom'', ''start of next month'', ''beginning of next month'',
        ''end of year'', ''end of this year'', ''eoy'', ''start of next year'',
        ''beginning of next year'']) (map fst WEEKDAYS)"
  by code_simp+

lemma fixed_words_other:
  assumes "e \<notin> set
       [''today'', ''now'', ''tomorrow'', ''yesterday'', ''day after tomorrow'',
        ''day before yesterday'', ''end of week'', ''end of this week'', ''this weekend'',
        ''start of next week'', ''beginning of next week'', ''next week'', ''end of month'',
        ''end of this month'', ''eom'', ''start of next month'', ''beginning of next month'',
        ''end of year'', ''end of this year'', ''eoy'', ''start of next year'',
        ''beginning of next year'']"
  shows "fixed_words e today = Inr None"
  using assms by (simp add: fixed_words_def)

lemma weekday_key:
  assumes "map_of WEEKDAYS w = Some wd"
  shows "0 \<le> wd" "wd \<le> 6"
    and "normalize (''next '' @ w) = (''next '' @ w, False)"
    and "\<not> list_ex (contains (lower (''next '' @ w))) time_keywords"
    and "\<exists>m. re_match modifier_pattern (''next '' @ w) = Some m
           \<and> group_str m 1 = ''next'' \<and> group_str m 2 = w"
    and "fixed_words (''next '' @ w) today = Inr None"
proof -
  from assms have in1: "(w, wd) \<in> set WEEKDAYS" by (rule map_of_SomeD)
  then have in2: "w \<in> set (map fst WEEKDAYS)" by force
  from in1 weekday_keys(1) show "0 \<le> wd" "wd \<le> 6" by (auto simp: list_all_iff)
  from in2 weekday_keys(2)[unfolded list_all_iff]
  show "normalize (''next '' @ w) = (''next '' @ w, False)" by blast
  from in2 weekday_keys(3)[unfolded list_all_iff]
  show "\<not> list_ex (contains (lower (''next '' @ w))) time_keywords" by blast
  from in2 weekday_keys(4) show "\<exists>m. re_match modifier_pattern (''next '' @ w) = Some m
           \<and> group_str m 1 = ''next'' \<and> group_str m 2 = w"
    unfolding list_all_iff by (auto split: option.splits)
  from in2 weekday_keys(5) have "''next '' @ w \<notin> set
       [''today'', ''now'', ''tomorrow'', ''yesterday'', ''day after tomorrow'',
        ''day before yesterday'', ''end of week'', ''end of this week'', ''this weekend'',
        ''start of next week'', ''beginning of next week'', ''next week'', ''end of month'',
        ''end of this month'', ''eom'', ''start of next month'', ''beginning of next month'',
        ''end of year'', ''end of this year'', ''eoy'', ''start of next year'',
        ''beginning of next year'']"
    unfolding list_all_iff by blast
  then show "fixed_words (''next '' @ w) today = Inr None" by (rule fixed_words_other)
qed

lemma next_weekday_resolve:
  assumes v: "valid_datetime ref" and w: "map_of WEEKDAYS w = Some wd"
  shows "resolve (''next '' @ w) ref =
     (if ordinal ref + ((wd - weekday ref - 1) mod 7 + 1) \<le> MAXORDINAL
      then Inr (ResultDict
        \<lparr>date = isoformat (ordinal ref + ((wd - weekday ref - 1) mod 7 + 1)),
         day_of_week = strftime_A (ordinal ref + ((wd - weekday ref - 1) mod 7 + 1)),
         expression = ''next '' @ w, description = ''next '' @ w,
         days_from_today = (wd - weekday ref - 1) mod 7 + 1, warning = None\<rparr>)
      else Inl OverflowError)"
proof -
  let ?today = "start_of_day ref"
  let ?e = "''next '' @ w"
  let ?k = "(wd - weekday ref - 1) mod 7 + 1"
  note k = weekday_key[OF w]
  from k(5) obtain m where m: "re_match modifier_pattern ?e = Some m"
    "group_str m 1 = ''next''" "group_str m 2 = w" by blast
  have kr: "0 \<le> ?k" "?k \<le> 999999999" using offset_range[of "wd - weekday ref"] by simp_all
  have "modifier_weekday ?e ?today = parsed_as (next_weekday wd ?today 0) ?e"
    using m w by (simp add: modifier_weekday_def)
  also have "next_weekday wd ?today 0 = add_days ?today ?k"
    using next_weekday_offset[OF k(1,2), of ?today] by (simp add: start_of_day_simps)
  also have "\<dots> = (if ordinal ref + ?k \<le> MAXORDINAL
       then Inr (?today\<lparr>ordinal := ordinal ref + ?k\<rparr>) else Inl OverflowError)"
    using add_days_forward[of ?today ?k] v kr by (simp add: start_of_day_simps)
  finally have mw: "modifier_weekday ?e ?today =
     parsed_as (if ordinal ref + ?k \<le> MAXORDINAL
        then Inr (?today\<lparr>ordinal := ordinal ref + ?k\<rparr>) else Inl OverflowError) ?e" .
  show ?thesis
  proof (cases "ordinal ref + ?k \<le> MAXORDINAL")
    case True
    with mw have "modifier_weekday ?e ?today = Inr (Some (?today\<lparr>ordinal := ordinal ref + ?k\<rparr>, ?e))"
      by (simp add: parsed_as_def)
    then have "first_match grammars ?e ?today = Inr (Some (?today\<lparr>ordinal := ordinal ref + ?k\<rparr>, ?e))"
      using k(6)[of ?today] by (simp add: grammars_def)
    from resolve_parsed[OF k(3) this k(4)] True show ?thesis by simp
  next
    case False
    with mw have "modifier_weekday ?e ?today = Inl OverflowError" by (simp add: parsed_as_def)
    then have "first_match grammars ?e ?today = Inl OverflowError"
      using k(6)[of ?today] by (simp add: grammars_def)
    from resolve_raises[OF k(3) this] False show ?thesis by simp
  qed
qed


section \<open>Claims on fixed phrases and weekdays\<close>

lemma feb_29_2024:
  "normalize ''1 year from now'' = (''1 year from now'', False)"
  "normalize ''in 1 year'' = (''in 1 year'', False)"
  "normalize ''a year from now'' = (''a year from now'', False)"
  "normalize ''1 year ago'' = (''1 year ago'', False)"
  "first_match grammars ''1 year from now'' (start_of_day (at_midnight 2024 2 29)) = Inl ValueError"
  "first_match grammars ''in 1 year'' (start_of_day (at_midnight 2024 2 29)) = Inl ValueError"
  "first_match grammars ''a year from now'' (start_of_day (at_midnight 2024 2 29)) = Inl ValueError"
  "first_match grammars ''1 year ago'' (start_of_day (at_midnight 2024 2 29)) = Inl ValueError"
  by code_simp+

text \<open>
  C1: on the reference date 2024-02-29 the four phrasings of year arithmetic raise
  \<open>ValueError\<close> out of \<open>resolve\<close>: no dictionary is returned.
\<close>

theorem year_arithmetic_raises_on_feb_29:
  "mk_datetime 2024 2 29 = Inr (at_midnight 2024 2 29)
   \<and> resolve ''1 year from now'' (at_midnight 2024 2 29) = Inl ValueError
   \<and> resolve ''in 1 year'' (at_midnight 2024 2 29) = Inl ValueError
   \<and> resolve ''a year from now'' (at_midnight 2024 2 29) = Inl ValueError
   \<and> resolve ''1 year ago'' (at_midnight 2024 2 29) = Inl ValueError"
proof -
  have "mk_datetime 2024 2 29 = Inr (at_midnight 2024 2 29)" by code_simp
  then show ?thesis
    using resolve_raises[OF feb_29_2024(1) feb_29_2024(5)]
      resolve_raises[OF feb_29_2024(2) feb_29_2024(6)]
      resolve_raises[OF feb_29_2024(3) feb_29_2024(7)]
      resolve_raises[OF feb_29_2024(4) feb_29_2024(8)]
    by (intro conjI)
qed

lemma sunday_2026_02_08:
  "valid_datetime (at_midnight 2026 2 8)"
  "weekday (at_midnight 2026 2 8) = 6"
  "ordinal (at_midnight 2026 2 8) = 739655"
  "isoformat 739655 = ''2026-02-08''"
  "strftime_A 739655 = ''Sunday''"
  "isoformat 739658 = ''2026-02-11''"
  "strftime_A 739658 = ''Wednesday''"
  "isoformat 739662 = ''2026-02-15''"
  "strftime_A 739662 = ''Sunday''"
  "map_of WEEKDAYS ''wednesday'' = Some 2"
  "map_of WEEKDAYS ''sunday'' = Some 6"
  "map_of WEEKDAYS ''monday'' = Some 0"
  by code_simp+

lemma last_day_9999:
  "valid_datetime (at_midnight 9999 12 31)"
  "weekday (at_midnight 9999 12 31) = 4"
  "ordinal (at_midnight 9999 12 31) = MAXORDINAL"
  "valid_datetime (at_midnight 9999 6 15)"
  "year (at_midnight 9999 6 15) = 9999"
  by code_simp+





text \<open>
  C3, as the code has it: for every reference date before the year 9999,
  \<open>"start of next year"\<close> and \<open>"beginning of next year"\<close> resolve to January 1 of the
  year after the reference date's.
\<close>

theorem start_of_next_year_is_january_first:
  assumes "valid_datetime ref" and "year ref < MAXYEAR"
    and "e = ''start of next year'' \<or> e = ''beginning of next year''"
  shows "resolve e ref = Inr (ResultDict
     \<lparr>date = zero_pad 4 (year ref + 1) @ ''-01-01'',
      day_of_week = strftime_A (ymd2ord (year ref + 1) 1 1),
      expression = e, description = ''start of next year'',
      days_from_today = ymd2ord (year ref + 1) 1 1 - ordinal ref, warning = None\<rparr>)"
  using start_of_next_year_resolve[OF assms(1,3)] assms(2) by simp

lemma year_2026:
  "year (at_midnight 2026 2 8) = 2026" "MAXYEAR = 9999"
  "zero_pad 4 2027 = ''2027''" "ymd2ord 2027 1 1 = 739982" "strftime_A 739982 = ''Friday''"
  by code_simp+

theorem start_of_next_year_is_january_first_witness:
  "resolve ''start of next year'' (at_midnight 2026 2 8) = Inr (ResultDict
     \<lparr>date = ''2027-01-01'', day_of_week = ''Friday'', expression = ''start of next year'',
      description = ''start of next year'', days_from_today = 327, warning = None\<rparr>)"
  using start_of_next_year_is_january_first[of "at_midnight 2026 2 8" "''start of next year''"]
  by (simp add: sunday_2026_02_08 year_2026)

theorem next_year_counterexample:
  "resolve ''next year'' (at_midnight 2026 2 8) =
     Inr (ErrorDict (''Could not parse: '' @ [CHR 0x27] @ ''next year'' @ [CHR 0x27]))
   \<and> resolve ''start of next year'' (at_midnight 9999 6 15) = Inl ValueError"
  by (simp add: next_year_unparsed start_of_next_year_resolve last_day_9999 year_2026)

text \<open>
  C4, as the code has it: for every weekday name \<open>w\<close> of \<open>WEEKDAYS\<close>, with number
  \<open>wd\<close>, and every reference date, the offset
  \<open>(wd - weekday(ref) - 1) mod 7 + 1\<close> lies between 1 and 7; when the reference date
  plus that offset is still a date of the calendar, \<open>"next w"\<close> resolves to it, a day
  strictly after the reference date, at most 7 days later, that falls on weekday \<open>wd\<close>;
  otherwise \<open>resolve\<close> raises \<open>OverflowError\<close>.
\<close>

theorem next_weekday_is_following_occurrence:
  assumes "valid_datetime ref" and "map_of WEEKDAYS w = Some wd"
  shows "(ordinal ref + ((wd - weekday ref - 1) mod 7 + 1) \<le> MAXORDINAL \<longrightarrow>
           (\<exists>t. t = ordinal ref + ((wd - weekday ref - 1) mod 7 + 1)
              \<and> ordinal ref < t \<and> t \<le> ordinal ref + 7 \<and> (t + 6) mod 7 = wd
              \<and> resolve (''next '' @ w) ref = Inr (ResultDict
                  \<lparr>date = isoformat t, day_of_week = strftime_A t,
                   expression = ''next '' @ w, description = ''next '' @ w,
                   days_from_today = t - ordinal ref, warning = None\<rparr>)))
       \<and> (MAXORDINAL < ordinal ref + ((wd - weekday ref - 1) mod 7 + 1) \<longrightarrow>
            resolve (''next '' @ w) ref = Inl OverflowError)"
proof -
  let ?k = "(wd - weekday ref - 1) mod 7 + 1"
  note r = next_weekday_resolve[OF assms]
  note wd = weekday_key(1,2)[OF assms(2)]
  have k: "1 \<le> ?k" "?k \<le> 7" by (rule offset_range)+
  have "(ordinal ref + ?k + 6) mod 7 = wd"
    unfolding weekday_def by (rule offset_weekday[OF wd])
  then show ?thesis using k r by simp
qed

theorem next_weekday_is_following_occurrence_witness:
  "resolve ''next wednesday'' (at_midnight 2026 2 8) = Inr (ResultDict
     \<lparr>date = ''2026-02-11'', day_of_week = ''Wednesday'', expression = ''next wednesday'',
      description = ''next wednesday'', days_from_today = 3, warning = None\<rparr>)
   \<and> resolve ''next sunday'' (at_midnight 2026 2 8) = Inr (ResultDict
     \<lparr>date = ''2026-02-15'', day_of_week = ''Sunday'', expression = ''next sunday'',
      description = ''next sunday'', days_from_today = 7, warning = None\<rparr>)"
  using next_weekday_is_following_occurrence[OF sunday_2026_02_08(1) sunday_2026_02_08(10)]
    next_weekday_is_following_occurrence[OF sunday_2026_02_08(1) sunday_2026_02_08(11)]
  by (simp add: sunday_2026_02_08 MAXORDINAL_def)

theorem next_weekday_at_calendar_end_counterexample:
  "resolve ''next monday'' (at_midnight 9999 12 31) = Inl OverflowError"
  using next_weekday_resolve[OF last_day_9999(1) sunday_2026_02_08(12)]
  by (simp add: last_day_9999)

section \<open>Adding months\<close>

lemma replace_ok:
  assumes "valid_ymd y m d"
  shows "replace dt y m d = Inr (dt\<lparr>ordinal := ymd2ord y m d\<rparr>)"
  using assms by (simp add: replace_def valid_ymd_def MINYEAR_def MAXYEAR_def)

lemma replace_year_out:
  assumes "y < MINYEAR \<or> MAXYEAR < y"
  shows "replace dt y m d = Inl OverflowError \<or> replace dt y m d = Inl ValueError"
  using assms by (auto simp: replace_def valid_ymd_def)

lemma days_in_month_ge: "28 \<le> days_in_month y m"
  by (simp add: days_in_month_def DAYS_IN_MONTH_def)

lemma month_index:
  fixes y m n :: int
  assumes "1 \<le> m" "m \<le> 12"
  shows "12 * (y + (m - 1 + n) div 12) + ((m - 1 + n) mod 12 + 1) = 12 * y + m + n"
    and "1 \<le> (m - 1 + n) mod 12 + 1" and "(m - 1 + n) mod 12 + 1 \<le> 12"
proof -
  have "12 * ((m - 1 + n) div 12) + (m - 1 + n) mod 12 = m - 1 + n" by simp
  then show "12 * (y + (m - 1 + n) div 12) + ((m - 1 + n) mod 12 + 1) = 12 * y + m + n"
    by (simp add: algebra_simps)
  show "1 \<le> (m - 1 + n) mod 12 + 1" "(m - 1 + n) mod 12 + 1 \<le> 12" by simp_all
qed

lemma add_months_in_range:
  assumes v: "valid_datetime dt"
    and lo: "12 * MINYEAR + 1 \<le> 12 * year dt + month dt + n"
    and hi: "12 * year dt + month dt + n \<le> 12 * MAXYEAR + 12"
  shows "\<exists>r. add_months dt n = Inr r \<and> valid_datetime r
           \<and> 12 * year r + month r = 12 * year dt + month dt + n
           \<and> 1 \<le> month r \<and> month r \<le> 12
           \<and> day r = min (day dt) (days_in_month (year r) (month r))
           \<and> hour r = hour dt \<and> minute r = minute dt \<and> second r = second dt
           \<and> microsecond r = microsecond dt"
proof -
  from valid_datetime_ymd(1)[OF v] have m: "1 \<le> month dt" "month dt \<le> 12" and d: "1 \<le> day dt"
    by (simp_all add: valid_ymd_def)
  define y' where "y' = year dt + (month dt - 1 + n) div 12"
  define m' where "m' = (month dt - 1 + n) mod 12 + 1"
  define d' where "d' = min (day dt) (days_in_month y' m')"
  note mi = month_index(1)[OF m, where y = "year dt" and n = n, folded y'_def m'_def]
    month_index(2,3)[OF m, where n = n, folded m'_def]
  have y: "MINYEAR \<le> y'" "y' \<le> MAXYEAR" using mi lo hi by linarith+
  have d': "1 \<le> d'" "d' \<le> days_in_month y' m'"
    using d days_in_month_ge[of y' m'] by (simp_all add: d'_def)
  have vy: "valid_ymd y' m' d'" using y mi(2,3) d' by (simp add: valid_ymd_def)
  have am: "add_months dt n = Inr (dt\<lparr>ordinal := ymd2ord y' m' d'\<rparr>)"
    unfolding add_months_def Let_def
    using replace_ok[OF vy, of dt] by (simp add: y'_def m'_def d'_def)
  let ?r = "dt\<lparr>ordinal := ymd2ord y' m' d'\<rparr>"
  have o: "ordinal ?r = ymd2ord y' m' d'" by simp
  note f = ymd_of_ymd2ord[OF vy o]
  have "valid_datetime ?r" by (rule valid_ymd_datetime[OF vy o])
  moreover have "12 * year ?r + month ?r = 12 * year dt + month dt + n"
    unfolding f using mi(1) .
  moreover have "day ?r = min (day dt) (days_in_month (year ?r) (month ?r))"
    unfolding f by (simp add: d'_def)
  moreover have "1 \<le> month ?r" "month ?r \<le> 12" unfolding f using mi(2,3) by simp_all
  ultimately show ?thesis using am by simp
qed

lemma add_months_out_of_range:
  assumes v: "valid_datetime dt"
    and out: "12 * year dt + month dt + n < 12 * MINYEAR + 1
              \<or> 12 * MAXYEAR + 12 < 12 * year dt + month dt + n"
  shows "add_months dt n = Inl OverflowError \<or> add_months dt n = Inl ValueError"
proof -
  from valid_datetime_ymd(1)[OF v] have m: "1 \<le> month dt" "month dt \<le> 12"
    by (simp_all add: valid_ymd_def)
  define y' where "y' = year dt + (month dt - 1 + n) div 12"
  define m' where "m' = (month dt - 1 + n) mod 12 + 1"
  note mi = month_index(1)[OF m, where y = "year dt" and n = n, folded y'_def m'_def]
    month_index(2,3)[OF m, where n = n, folded m'_def]
  have "y' < MINYEAR \<or> MAXYEAR < y'" using mi out by linarith
  from replace_year_out[OF this, of dt m' "min (day dt) (days_in_month y' m')"]
  show ?thesis unfolding add_months_def Let_def by (simp add: y'_def m'_def)
qed

lemma at_midnight_valid:
  assumes "valid_ymd y m d"
  shows "valid_datetime (at_midnight y m d)" "year (at_midnight y m d) = y"
    "month (at_midnight y m d) = m" "day (at_midnight y m d) = d"
  using valid_ymd_datetime[OF assms, of "at_midnight y m d"]
    ymd_of_ymd2ord[OF assms, of "at_midnight y m d"]
  by (simp_all add: at_midnight_def)

lemma january_31:
  assumes "MINYEAR \<le> y" "y \<le> MAXYEAR"
  shows "add_months (at_midnight y 1 31) 1 = Inr (at_midnight y 2 (if is_leap y then 29 else 28))"
proof -
  have v: "valid_ymd y 1 31"
    using assms by (simp add: valid_ymd_def days_in_month_def DAYS_IN_MONTH_def)
  have v2: "valid_ymd y 2 (if is_leap y then 29 else 28)"
    using assms by (simp add: valid_ymd_def days_in_month_def DAYS_IN_MONTH_def)
  have "min 31 (days_in_month y 2) = (if is_leap y then 29 else 28)"
    by (simp add: days_in_month_def DAYS_IN_MONTH_def)
  then show ?thesis
    unfolding add_months_def Let_def at_midnight_valid(2-4)[OF v]
    using replace_ok[OF v2, of "at_midnight y 1 31"]
    by (simp add: at_midnight_def)
qed

text \<open>
  C7, as the code has it: for every date and every integer \<open>n\<close> such that the month
  \<open>n\<close> months away lies in the years 1 to 9999, \<open>_add_months\<close> returns the date in
  exactly that month whose day is the day of the given date, or the last day of the
  month when the month has fewer days, with the time of day unchanged; outside those
  years it raises. So January 31 plus one month is February 29 in a leap year and
  February 28 in any other year.
\<close>

theorem add_months_clamps_day:
  assumes "valid_datetime dt"
  shows "(12 * MINYEAR + 1 \<le> 12 * year dt + month dt + n
          \<and> 12 * year dt + month dt + n \<le> 12 * MAXYEAR + 12 \<longrightarrow>
           (\<exists>r. add_months dt n = Inr r \<and> valid_datetime r
              \<and> 12 * year r + month r = 12 * year dt + month dt + n
              \<and> 1 \<le> month r \<and> month r \<le> 12
              \<and> day r = min (day dt) (days_in_month (year r) (month r))
              \<and> hour r = hour dt \<and> minute r = minute dt \<and> second r = second dt
              \<and> microsecond r = microsecond dt))
       \<and> (12 * year dt + month dt + n < 12 * MINYEAR + 1
          \<or> 12 * MAXYEAR + 12 < 12 * year dt + month dt + n \<longrightarrow>
           add_months dt n = Inl OverflowError \<or> add_months dt n = Inl ValueError)
       \<and> (MINYEAR \<le> y \<and> y \<le> MAXYEAR \<longrightarrow>
            add_months (at_midnight y 1 31) 1
              = Inr (at_midnight y 2 (if is_leap y then 29 else 28)))"
  using add_months_in_range[OF assms, of n] add_months_out_of_range[OF assms, of n]
    january_31[of y]
  by blast


lemma march_31_2026:
  "valid_datetime (at_midnight 2026 3 31)" "year (at_midnight 2026 3 31) = 2026"
  "month (at_midnight 2026 3 31) = 3" "day (at_midnight 2026 3 31) = 31"
  "MINYEAR = 1" "MAXYEAR = 9999" "is_leap 2024" "\<not> is_leap 2026"
  "add_months (at_midnight 2026 3 31) (- 1) = Inr (at_midnight 2026 2 28)"
  by code_simp+

theorem add_months_clamps_day_witness:
  "(\<exists>r. add_months (at_midnight 2026 3 31) (- 1) = Inr r \<and> r = at_midnight 2026 2 28
      \<and> 12 * year r + month r = 12 * 2026 + 3 - 1 \<and> day r = min 31 (days_in_month (year r) (month r)))
   \<and> add_months (at_midnight 2024 1 31) 1 = Inr (at_midnight 2024 2 29)
   \<and> add_months (at_midnight 2026 1 31) 1 = Inr (at_midnight 2026 2 28)"
proof -
  note t = add_months_clamps_day[OF march_31_2026(1)]
  from t[of "- 1" 2024, THEN conjunct1]
  obtain r where r: "add_months (at_midnight 2026 3 31) (- 1) = Inr r"
    "12 * year r + month r = 12 * 2026 + 3 - 1"
    "day r = min 31 (days_in_month (year r) (month r))"
    by (auto simp: march_31_2026)
  from r(1) have "r = at_midnight 2026 2 28" by (simp add: march_31_2026(9))
  moreover from t[of 0 2024, THEN conjunct2, THEN conjunct2]
  have "add_months (at_midnight 2024 1 31) 1 = Inr (at_midnight 2024 2 29)"
    by (simp add: march_31_2026)
  moreover from t[of 0 2026, THEN conjunct2, THEN conjunct2]
  have "add_months (at_midnight 2026 1 31) 1 = Inr (at_midnight 2026 2 28)"
    by (simp add: march_31_2026)
  ultimately show ?thesis using r by blast
qed

theorem add_months_past_year_9999_counterexample:
  "mk_datetime 9999 12 15 = Inr (at_midnight 9999 12 15)
   \<and> add_months (at_midnight 9999 12 15) 1 = Inl ValueError"
  by code_simp

section \<open>Tomorrow and yesterday\<close>

lemma saturday_2026_02_07:
  "valid_datetime (at_midnight 2026 2 7)"
  "normalize ''tomorrow'' = (''tomorrow'', False)"
  "normalize ''yesterday'' = (''yesterday'', False)"
  "\<not> list_ex (contains (lower ''tomorrow'')) time_keywords"
  "\<not> list_ex (contains (lower ''yesterday'')) time_keywords"
  "ordinal (at_midnight 2026 2 7) = 739654"
  "isoformat 739653 = ''2026-02-06''" "strftime_A 739653 = ''Friday''"
  "MAXORDINAL = 3652059"
  by code_simp+

lemma tomorrow_fixed:
  "fixed_words ''tomorrow'' today = parsed_as (add_days today 1) ''tomorrow''"
  "fixed_words ''yesterday'' today = parsed_as (add_days today (- 1)) ''yesterday''"
  by (simp_all add: fixed_words_def)

lemma tomorrow_2026_02_07:
  "resolve ''tomorrow'' (at_midnight 2026 2 7) = Inr (ResultDict
     \<lparr>date = ''2026-02-08'', day_of_week = ''Sunday'', expression = ''tomorrow'',
      description = ''tomorrow'', days_from_today = 1, warning = None\<rparr>)"
proof -
  let ?today = "start_of_day (at_midnight 2026 2 7)"
  have "fixed_words ''tomorrow'' ?today = Inr (Some (?today\<lparr>ordinal := 739655\<rparr>, ''tomorrow''))"
    unfolding tomorrow_fixed
    by (simp add: add_days_small start_of_day_simps saturday_2026_02_07 parsed_as_def)
  from resolve_parsed[OF saturday_2026_02_07(2) fixed_words_hit(1)[OF this] saturday_2026_02_07(4)]
  show ?thesis by (simp add: saturday_2026_02_07 sunday_2026_02_08)
qed

lemma yesterday_2026_02_07:
  "resolve ''yesterday'' (at_midnight 2026 2 7) = Inr (ResultDict
     \<lparr>date = ''2026-02-06'', day_of_week = ''Friday'', expression = ''yesterday'',
      description = ''yesterday'', days_from_today = - 1, warning = None\<rparr>)"
proof -
  let ?today = "start_of_day (at_midnight 2026 2 7)"
  have "fixed_words ''yesterday'' ?today = Inr (Some (?today\<lparr>ordinal := 739653\<rparr>, ''yesterday''))"
    unfolding tomorrow_fixed
    by (simp add: add_days_small start_of_day_simps saturday_2026_02_07 parsed_as_def)
  from resolve_parsed[OF saturday_2026_02_07(3) fixed_words_hit(1)[OF this] saturday_2026_02_07(5)]
  show ?thesis by (simp add: saturday_2026_02_07)
qed

theorem days_from_today_is_date_difference_witness:
  "resolve ''tomorrow'' (at_midnight 2026 2 7) = Inr (ResultDict
     \<lparr>date = ''2026-02-08'', day_of_week = ''Sunday'', expression = ''tomorrow'',
      description = ''tomorrow'', days_from_today = 1, warning = None\<rparr>)
   \<and> (\<exists>y m d. valid_ymd y m d
        \<and> ''2026-02-08'' = zero_pad 4 y @ ''-'' @ zero_pad 2 m @ ''-'' @ zero_pad 2 d
        \<and> 1 = ymd2ord y m d - ordinal (at_midnight 2026 2 7))
   \<and> resolve ''yesterday'' (at_midnight 2026 2 7) = Inr (ResultDict
     \<lparr>date = ''2026-02-06'', day_of_week = ''Friday'', expression = ''yesterday'',
      description = ''yesterday'', days_from_today = - 1, warning = None\<rparr>)
   \<and> (\<exists>y m d. valid_ymd y m d
        \<and> ''2026-02-06'' = zero_pad 4 y @ ''-'' @ zero_pad 2 m @ ''-'' @ zero_pad 2 d
        \<and> - 1 = ymd2ord y m d - ordinal (at_midnight 2026 2 7))"
  using days_from_today_is_date_difference[OF saturday_2026_02_07(1) tomorrow_2026_02_07]
    days_from_today_is_date_difference[OF saturday_2026_02_07(1) yesterday_2026_02_07]
    tomorrow_2026_02_07 yesterday_2026_02_07
  by simp

section \<open>A matched expression that fails\<close>

lemma feb_29_2028:
  "mk_datetime 2028 2 29 = Inr (at_midnight 2028 2 29)"
  "normalize ''in 3 years'' = (''in 3 years'', False)"
  "map_option (\<lambda>m. (group_str m 1, group_str m 2)) (re_match in_units_pattern ''in 3 years'')
     = Some (''3'', ''year'')"
  "first_match grammars ''in 3 years'' (start_of_day (at_midnight 2028 2 29)) = Inl ValueError"
  by code_simp+

text \<open>
  C9: on the reference date 2028-02-29 the expression \<open>"in 3 years"\<close> is matched by
  the pattern of the "in N units" block (count 3, unit year), and \<open>resolve\<close> raises
  \<open>ValueError\<close>: the resolution fails although a grammar matched, and not with the
  error dictionary.
\<close>

theorem matched_expression_raises:
  "mk_datetime 2028 2 29 = Inr (at_midnight 2028 2 29)
   \<and> map_option (\<lambda>m. (group_str m 1, group_str m 2)) (re_match in_units_pattern ''in 3 years'')
        = Some (''3'', ''year'')
   \<and> resolve ''in 3 years'' (at_midnight 2028 2 29) = Inl ValueError"
  using feb_29_2028(1,3) resolve_raises[OF feb_29_2028(2) feb_29_2028(4)]
  by (intro conjI)

section \<open>Characters\<close>

lemma digit_class:
  assumes "is_digit c"
  shows "\<not> is_space c" "is_word c" "lower_char c = c"
  using assms by (auto simp: is_digit_def is_space_def is_word_def lower_char_def Let_def)

lemma digit_not_letter:
  assumes "is_digit c"
  shows "c \<noteq> CHR ''a''" "c \<noteq> CHR ''i''" "c \<noteq> CHR ''m''" "c \<noteq> CHR ''e''" "c \<noteq> CHR ''n''"
    "c \<noteq> CHR ''o''" "c \<noteq> CHR '' ''" "c \<noteq> CHR ''p''" "c \<noteq> CHR ''t''"
  using assms by (auto simp: is_digit_def)

section \<open>The first way a pattern matches\<close>

lemma re_match_first_way: "re_match r s = map_option snd (first_way r s [])"
  by (simp add: re_match_def first_way_def split: list.splits)

lemma takeWhile_run:
  assumes "\<forall>c\<in>set xs. P c" "s = [] \<or> \<not> P (hd s)"
  shows "takeWhile P (xs @ s) = xs"
proof -
  have "takeWhile P s = []" using assms(2) by (cases s) auto
  then show ?thesis using assms(1) by (simp add: takeWhile_append2)
qed

lemma rmatch_rep_none:
  assumes "s = [] \<or> \<not> in_class cl (hd s)" "1 \<le> lo"
  shows "rmatch (Rep cl lo hi g) s caps = []"
proof -
  have "takeWhile (in_class cl) s = []" using assms(1) by (cases s) auto
  then show ?thesis using assms(2) by (cases hi) (simp_all add: Let_def)
qed

lemma first_way_rep:
  assumes "\<forall>c\<in>set xs. in_class cl c" "s = [] \<or> \<not> in_class cl (hd s)"
    and "lo \<le> length xs" "case hi of None \<Rightarrow> True | Some h \<Rightarrow> length xs \<le> h"
  shows "first_way (Rep cl lo hi True) (xs @ s) caps = Some (s, caps)"
proof -
  have run: "length (takeWhile (in_class cl) (xs @ s)) = length xs"
    using takeWhile_run[OF assms(1,2)] by simp
  have n: "(case hi of None \<Rightarrow> length xs | Some h \<Rightarrow> min h (length xs)) = length xs"
    using assms(4) by (cases hi) simp_all
  show ?thesis
    unfolding first_way_def using assms(3) by (simp add: Let_def run n)
qed

lemma first_way_Lit: "first_way (Lit w) (w @ s) caps = Some (s, caps)"
proof -
  have "startswith (w @ s) w" by (induction w) simp_all
  then show ?thesis by (simp add: first_way_def)
qed

lemma first_way_Group:
  assumes "first_way r s caps = Some (s1, c1)"
  shows "first_way (Group g r) s caps = Some (s1, (g, take (length s - length s1) s) # c1)"
  using assms by (auto simp: first_way_def split: list.splits)

lemma first_way_Opt_skip:
  assumes "rmatch r s caps = []"
  shows "first_way (Opt r) s caps = Some (s, caps)"
  using assms by (simp add: first_way_def)

lemma first_way_Seq: "first_way (Seq rs) s caps = first_way_seq rs s caps"
  by (simp add: first_way_def first_way_seq_def)

lemma first_way_seq_Nil: "first_way_seq [] s caps = Some (s, caps)"
  by (simp add: first_way_seq_def)

lemma first_way_seq_Cons:
  assumes "first_way r s caps = Some (s1, c1)" "first_way_seq rs s1 c1 = Some x"
  shows "first_way_seq (r # rs) s caps = Some x"
  using assms by (auto simp: first_way_def first_way_seq_def split: list.splits)

lemma first_way_seq_fail:
  assumes "rmatch r s caps = []"
  shows "first_way_seq (r # rs) s caps = None"
  using assms by (simp add: first_way_seq_def)

lemma first_way_Eos: "first_way Eos [] caps = Some ([], caps)"
  by (simp add: first_way_def)

section \<open>Normalizing a text without a time of day\<close>

lemma time_suffixes_nonspace:
  assumes "s = [] \<or> \<not> is_space (hd s)"
  shows "rmatch time_suffixes s caps = []"
  using rmatch_rep_none[of s Space 1 None True caps] assms
  by (simp add: time_suffixes_def rplus_def)

lemma time_suffixes_one_space:
  assumes "\<not> is_space c" "c \<noteq> CHR ''a''" "c \<noteq> CHR ''i''" "c \<noteq> CHR ''m''"
    "c \<noteq> CHR ''e''" "c \<noteq> CHR ''n''"
  shows "rmatch time_suffixes (CHR '' '' # c # rest) caps = []"
  using assms by (simp add: time_suffixes_def rplus_def is_space_def[of "CHR '' ''"] Let_def)

lemma search_char:
  assumes "\<not> is_space c"
  shows "re_search_from time_suffixes pre (c # s) = re_search_from time_suffixes (pre @ [c]) s"
  using time_suffixes_nonspace[of "c # s" "[]"] assms by simp

lemma search_space:
  assumes "\<not> is_space c" "c \<noteq> CHR ''a''" "c \<noteq> CHR ''i''" "c \<noteq> CHR ''m''"
    "c \<noteq> CHR ''e''" "c \<noteq> CHR ''n''"
  shows "re_search_from time_suffixes pre (CHR '' '' # c # rest)
       = re_search_from time_suffixes (pre @ '' '') (c # rest)"
  using time_suffixes_one_space[OF assms, of rest "[]"] by simp

lemma search_block:
  assumes "\<forall>c\<in>set xs. \<not> is_space c"
  shows "re_search_from time_suffixes pre (xs @ s) = re_search_from time_suffixes (pre @ xs) s"
  using assms by (induction xs arbitrary: pre) (simp_all add: search_char del: re_search_from.simps)

lemma search_end: "re_search_from time_suffixes pre [] = None"
  using time_suffixes_nonspace[of "[]" "[]"] by simp

lemma strip_id:
  assumes "s \<noteq> []" "\<not> is_space (hd s)" "\<not> is_space (last s)"
  shows "strip s = s"
proof -
  have 1: "dropWhile is_space s = s" using assms(1,2) by (cases s) auto
  obtain ys y where s: "s = ys @ [y]" using assms(1) by (cases s rule: rev_cases) auto
  have "dropWhile is_space (rev s) = rev s" using assms(3) unfolding s by simp
  then show ?thesis by (simp add: strip_def 1)
qed

lemma normalize_plain:
  assumes "lower e = e" "strip e = e" "re_search_from time_suffixes [] e = None"
  shows "normalize e = (e, False)"
  using assms by (simp add: normalize_def re_search_def)

section \<open>Keywords\<close>

lemma startswith_stop:
  assumes "d \<notin> set kw"
  shows "startswith (A @ d # R) kw = startswith A kw"
  using assms by (induction A kw rule: startswith.induct) auto

lemma contains_around:
  assumes "d \<notin> set kw" "kw \<noteq> []"
  shows "contains (A @ d # R) kw = (contains A kw \<or> contains R kw)"
  using assms
proof (induction A)
  case Nil
  then show ?case by (cases kw) auto
next
  case (Cons a A)
  from startswith_stop[OF Cons.prems(1), of "a # A" R]
  have "startswith (a # A @ d # R) kw = startswith (a # A) kw" by simp
  with Cons show ?case by auto
qed

lemma contains_digits:
  assumes "\<forall>c\<in>set ds. is_digit c" "kw \<noteq> []" "\<not> is_digit (hd kw)"
  shows "contains (ds @ B) kw = contains B kw"
  using assms by (induction ds) (cases kw; auto)+


section \<open>Counting business days\<close>

lemma bdb_refl: "business_days_between a a = 0"
  by (simp add: business_days_between_def)

lemma bdb_step:
  assumes "a < b"
  shows "business_days_between a b =
     (if business_day (a + 1) then 1 else 0) + business_days_between (a + 1) b"
proof -
  have "[a + 1 .. b] = (a + 1) # [a + 1 + 1 .. b]" using assms by (simp add: upto_rec1)
  then show ?thesis by (simp add: business_days_between_def)
qed

lemma bdb_last:
  assumes "a < b"
  shows "business_days_between a b =
     business_days_between a (b - 1) + (if business_day b then 1 else 0)"
proof -
  have "[a + 1 .. b] = [a + 1 .. b - 1] @ [b]" using assms by (simp add: upto_rec2)
  then show ?thesis by (simp add: business_days_between_def)
qed

lemma bdb_nonneg: "0 \<le> business_days_between a b"
  by (simp add: business_days_between_def)

lemma bdb_mono:
  assumes "a \<le> b" "b \<le> b'"
  shows "business_days_between a b \<le> business_days_between a b'"
proof (cases "a = b")
  case True
  then show ?thesis by (simp add: bdb_refl bdb_nonneg)
next
  case False
  then have "[a + 1 .. b'] = [a + 1 .. b] @ [b + 1 .. b']"
    using assms by (intro upto_split2) auto
  then show ?thesis by (simp add: business_days_between_def)
qed

lemma weekday_business: "(weekday d < 5) = business_day (ordinal d)"
  by (simp add: weekday_def business_day_def)

lemma add_days_one:
  assumes "valid_datetime d"
  shows "add_days d 1 = (if ordinal d < MAXORDINAL then Inr (d\<lparr>ordinal := ordinal d + 1\<rparr>)
                          else Inl OverflowError)"
  using add_days_forward[OF assms, of 1] by auto

lemma business_loop_Inr:
  assumes "business_loop d a c = Inr d'" "valid_datetime d"
  shows "d' = d\<lparr>ordinal := ordinal d'\<rparr> \<and> ordinal d \<le> ordinal d' \<and> ordinal d' \<le> MAXORDINAL
       \<and> (a < c \<longrightarrow> ordinal d < ordinal d' \<and> business_day (ordinal d')
                    \<and> business_days_between (ordinal d) (ordinal d') = c - a)
       \<and> (\<not> a < c \<longrightarrow> d' = d)"
  using assms
proof (induction d a c rule: business_loop.induct)
  case (1 d a c)
  show ?case
  proof (cases "a < c")
    case False
    with "1.prems" show ?thesis
      by (simp add: business_loop.simps[of d] valid_datetime_def)
  next
    case True
    let ?d1 = "d\<lparr>ordinal := ordinal d + 1\<rparr>"
    let ?a1 = "if weekday ?d1 < 5 then a + 1 else a"
    from "1.prems" True have lt: "ordinal d < MAXORDINAL"
      by (auto simp: business_loop.simps[of d] add_days_one split: if_splits)
    then have ad: "add_days d 1 = Inr ?d1" using "1.prems"(2) by (simp add: add_days_one)
    with "1.prems"(1) True have loop: "business_loop ?d1 ?a1 c = Inr d'"
      by (simp add: business_loop.simps[of d])
    have v1: "valid_datetime ?d1" using add_days_valid[OF ad] .
    note IH = "1.IH"[OF True ad loop v1]
    have o1: "ordinal ?d1 = ordinal d + 1" by simp
    have step: "business_days_between (ordinal d) (ordinal d') =
        (if business_day (ordinal d + 1) then 1 else 0)
          + business_days_between (ordinal d + 1) (ordinal d')"
      by (rule bdb_step) (use IH in simp)
    have wb: "(weekday ?d1 < 5) = business_day (ordinal d + 1)"
      by (simp add: weekday_business)
    have rec: "d' = d\<lparr>ordinal := ordinal d'\<rparr>" using IH by (cases d, cases d') auto
    show ?thesis
    proof (cases "?a1 < c")
      case a1: True
      with IH have "ordinal d + 1 < ordinal d'" "business_day (ordinal d')"
        "business_days_between (ordinal d + 1) (ordinal d') = c - ?a1" by simp_all
      then show ?thesis using True step wb rec IH by (auto split: if_splits)
    next
      case a1: False
      with IH have dd: "d' = ?d1" by simp
      from a1 True have w: "weekday ?d1 < 5" and c: "c = a + 1" by (auto split: if_splits)
      have "business_days_between (ordinal d) (ordinal d + 1) = 1"
        using bdb_step[of "ordinal d" "ordinal d + 1"] w wb by (simp add: bdb_refl)
      then show ?thesis using True dd w wb c lt by simp
    qed
  qed
qed

lemma business_loop_Inl:
  assumes "business_loop d a c = Inl e" "valid_datetime d"
  shows "e = OverflowError \<and> a < c \<and> business_days_between (ordinal d) MAXORDINAL < c - a"
  using assms
proof (induction d a c rule: business_loop.induct)
  case (1 d a c)
  from "1.prems"(1) have True: "a < c" by (auto simp: business_loop.simps[of d] split: if_splits)
  let ?d1 = "d\<lparr>ordinal := ordinal d + 1\<rparr>"
  let ?a1 = "if weekday ?d1 < 5 then a + 1 else a"
  show ?case
  proof (cases "ordinal d < MAXORDINAL")
    case False
    then have "add_days d 1 = Inl OverflowError" using "1.prems"(2) by (simp add: add_days_one)
    with "1.prems"(1) True have "e = OverflowError" by (simp add: business_loop.simps[of d])
    moreover have "ordinal d = MAXORDINAL" using False "1.prems"(2) by (simp add: valid_datetime_def)
    ultimately show ?thesis using True by (simp add: bdb_refl)
  next
    case lt: True
    then have ad: "add_days d 1 = Inr ?d1" using "1.prems"(2) by (simp add: add_days_one)
    with "1.prems"(1) True have loop: "business_loop ?d1 ?a1 c = Inl e"
      by (simp add: business_loop.simps[of d])
    have v1: "valid_datetime ?d1" using add_days_valid[OF ad] .
    note IH = "1.IH"[OF True ad loop v1]
    have step: "business_days_between (ordinal d) MAXORDINAL =
        (if business_day (ordinal d + 1) then 1 else 0)
          + business_days_between (ordinal d + 1) MAXORDINAL"
      by (rule bdb_step) (rule lt)
    have wb: "(weekday ?d1 < 5) = business_day (ordinal d + 1)"
      by (simp add: weekday_business)
    show ?thesis using IH True step wb by (auto split: if_splits)
  qed
qed

lemma business_loop_result:
  assumes v: "valid_datetime d" and n: "1 \<le> n"
  shows "(n \<le> business_days_between (ordinal d) MAXORDINAL \<longrightarrow>
           (\<exists>t. business_loop d 0 n = Inr (d\<lparr>ordinal := t\<rparr>) \<and> ordinal d < t \<and> t \<le> MAXORDINAL
              \<and> business_day t \<and> business_days_between (ordinal d) t = n))
       \<and> (business_days_between (ordinal d) MAXORDINAL < n \<longrightarrow>
            business_loop d 0 n = Inl OverflowError)"
proof (cases "business_loop d 0 n")
  case (Inl e)
  from business_loop_Inl[OF Inl v] Inl show ?thesis by simp
next
  case (Inr d')
  from business_loop_Inr[OF Inr v] n
  have p: "d' = d\<lparr>ordinal := ordinal d'\<rparr>" "ordinal d' \<le> MAXORDINAL" "ordinal d < ordinal d'"
    "business_day (ordinal d')" "business_days_between (ordinal d) (ordinal d') = n"
    by simp_all
  from bdb_mono[of "ordinal d" "ordinal d'" MAXORDINAL] p
  have "n \<le> business_days_between (ordinal d) MAXORDINAL" by simp
  moreover have "business_loop d 0 n = Inr (d\<lparr>ordinal := ordinal d'\<rparr>)" using Inr p(1) by simp
  ultimately show ?thesis using p by auto
qed

lemma business_day_shift:
  assumes "(n + 6) mod 7 = w"
  shows "business_day (n + k) = ((w + k) mod 7 < 5)"
proof -
  have "(n + k + 6) mod 7 = ((n + 6) + k) mod 7" by (simp add: algebra_simps)
  also have "\<dots> = ((n + 6) mod 7 + k) mod 7" by (simp add: mod_add_left_eq)
  finally show ?thesis using assms by (simp add: business_day_def)
qed

lemma friday_week:
  assumes "(n + 6) mod 7 = 4"
  shows "business_days_between n (n + 6) = 4" "business_days_between n (n + 7) = 5"
    "business_day (n + 7)"
proof -
  note b = business_day_shift[OF assms]
  have l: "business_days_between n (n + (k + 1)) =
      business_days_between n (n + k) + (if business_day (n + (k + 1)) then 1 else 0)"
    if "0 \<le> k" for k
    using bdb_last[of n "n + (k + 1)"] that by (simp add: algebra_simps)
  have 1: "business_days_between n (n + 1) = 0"
    using l[of 0] b[of 1] by (simp add: bdb_refl)
  have 2: "business_days_between n (n + 2) = 0"
    using l[of 1] b[of 2] 1 by simp
  have 3: "business_days_between n (n + 3) = 1"
    using l[of 2] b[of 3] 2 by simp
  have 4: "business_days_between n (n + 4) = 2"
    using l[of 3] b[of 4] 3 by simp
  have 5: "business_days_between n (n + 5) = 3"
    using l[of 4] b[of 5] 4 by simp
  show 6: "business_days_between n (n + 6) = 4"
    using l[of 5] b[of 6] 5 by simp
  show "business_days_between n (n + 7) = 5"
    using l[of 6] b[of 7] 6 by simp
  show "business_day (n + 7)" using b[of 7] by simp
qed

lemma friday_five:
  assumes f: "(n + 6) mod 7 = 4" and t: "n < t" "business_day t" "business_days_between n t = 5"
  shows "t = n + 7"
proof (rule ccontr)
  assume "t \<noteq> n + 7"
  then consider "t \<le> n + 6" | "n + 7 < t" by linarith
  then show False
  proof cases
    case 1
    from bdb_mono[of n t "n + 6"] 1 t(1) friday_week(1)[OF f] t(3) show False by simp
  next
    case 2
    from bdb_last[of n t] t have "business_days_between n (t - 1) = 4" by simp
    moreover from bdb_mono[of n "n + 7" "t - 1"] 2 friday_week(2)[OF f]
    have "5 \<le> business_days_between n (t - 1)" by simp
    ultimately show False by simp
  qed
qed


section \<open>Decimal digits\<close>

lemma digit_char_digit:
  assumes "k < 10"
  shows "is_digit (digit_char k)" "int (of_char (digit_char k)) - 48 = int k"
  using assms by (simp_all add: digit_char_def is_digit_def)

lemma str_nat_digits: "str_nat n \<noteq> [] \<and> (\<forall>c\<in>set (str_nat n). is_digit c)"
proof (induction n rule: str_nat.induct)
  case (1 n)
  show ?case
  proof (cases "n < 10")
    case True
    then show ?thesis by (simp add: str_nat.simps[of n] digit_char_digit)
  next
    case False
    with 1 show ?thesis by (simp add: str_nat.simps[of n] digit_char_digit)
  qed
qed

lemma int_of_digits_snoc:
  "int_of_digits (s @ [c]) = 10 * int_of_digits s + (int (of_char c) - 48)"
  by (simp add: int_of_digits_def)

lemma int_of_str_nat: "int_of_digits (str_nat n) = int n"
proof (induction n rule: str_nat.induct)
  case (1 n)
  show ?case
  proof (cases "n < 10")
    case True
    then show ?thesis
      using int_of_digits_snoc[of "[]" "digit_char n"]
      by (simp add: str_nat.simps[of n] digit_char_digit int_of_digits_def)
  next
    case False
    have "int n = 10 * int (n div 10) + int (n mod 10)" by presburger
    with False 1 show ?thesis
      by (simp add: str_nat.simps[of n] int_of_digits_snoc digit_char_digit)
  qed
qed

lemma length_str_nat: "0 < k \<Longrightarrow> n < 10 ^ k \<Longrightarrow> length (str_nat n) \<le> k"
proof (induction k arbitrary: n)
  case 0
  then show ?case by simp
next
  case (Suc k)
  show ?case
  proof (cases "n < 10")
    case True
    then show ?thesis by (simp add: str_nat.simps[of n])
  next
    case False
    with Suc.prems have k: "0 < k" by (cases k) auto
    from Suc.prems have "n div 10 < 10 ^ k" by (simp add: less_mult_imp_div_less mult.commute)
    from Suc.IH[OF k this] False show ?thesis by (simp add: str_nat.simps[of n])
  qed
qed

lemma py_int_str_int:
  assumes "0 \<le> n"
  shows "py_int (str_int n) =
     (if int_max_str_digits < length (str_int n) then Inl ValueError else Inr n)"
  using assms by (simp add: py_int_def str_int_def int_of_str_nat)

lemma str_int_short:
  assumes "0 \<le> n" "n \<le> MAXORDINAL"
  shows "length (str_int n) \<le> int_max_str_digits"
proof -
  have "nat n < 10 ^ 7" using assms by (simp add: MAXORDINAL_def)
  from length_str_nat[OF _ this] assms(1) show ?thesis
    by (simp add: str_int_def int_max_str_digits_def)
qed

lemma str_int_digits:
  assumes "0 \<le> n"
  shows "str_int n \<noteq> []" "\<forall>c\<in>set (str_int n). is_digit c"
  using assms str_nat_digits[of "nat n"] by (simp_all add: str_int_def)

section \<open>The text \<open>in N business days\<close>\<close>

lemma search_pre: "(re_search_from r pre s = None) = (re_search_from r [] s = None)"
  by (induction s arbitrary: pre) (auto split: list.splits)

lemma business_days_closed:
  "re_search_from time_suffixes [] '' business days'' = None"
  "lower ''in '' = ''in ''" "lower '' business days'' = '' business days''"
  "\<forall>c\<in>set ''in''. \<not> is_space c"
  "list_all (\<lambda>kw. kw \<noteq> [] \<and> list_all (\<lambda>k. \<not> is_digit k) kw
       \<and> \<not> contains ''in '' kw \<and> \<not> contains '' business days'' kw) time_keywords"
  "list_all (\<lambda>p. hd p \<noteq> CHR ''i'')
       [''today'', ''now'', ''tomorrow'', ''yesterday'', ''day after tomorrow'',
        ''day before yesterday'', ''end of week'', ''end of this week'', ''this weekend'',
        ''start of next week'', ''beginning of next week'', ''next week'', ''end of month'',
        ''end of this month'', ''eom'', ''start of next month'', ''beginning of next month'',
        ''end of year'', ''end of this year'', ''eoy'', ''start of next year'',
        ''beginning of next year'']"
  by code_simp+

lemma starts_with_i:
  "re_match modifier_pattern (CHR ''i'' # s) = None"
  "re_match from_now_pattern (CHR ''i'' # s) = None"
  by (simp_all add: re_match_def modifier_pattern_def from_now_pattern_def rplus_def
      is_digit_def Let_def)

lemma business_tail:
  "first_way_seq
     [rplus Space,
      Alt [Seq [Lit ''business'', rplus Space, Lit ''day'', Opt (Lit ''s'')],
           Seq [Lit ''workday'', Opt (Lit ''s'')],
           Seq [Lit ''work'', rplus Space, Lit ''day'', Opt (Lit ''s'')]]]
     '' business days'' caps = Some ([], caps)"
  by (simp add: first_way_seq_def rplus_def is_space_def Let_def)

lemma in_business_days_text:
  assumes ne: "ds \<noteq> []" and dg: "\<forall>c\<in>set ds. is_digit c"
  defines "e \<equiv> ''in '' @ ds @ '' business days''"
  shows "normalize e = (e, False)"
    and "\<not> list_ex (contains (lower e)) time_keywords"
    and "fixed_words e today = Inr None"
    and "modifier_weekday e today = Inr None"
    and "counted_from_now e today = Inr None"
    and "re_match business_pattern e = Some [(1, ds)]"
proof -
  obtain d ds' where ds: "ds = d # ds'" using ne by (cases ds) auto
  have d: "is_digit d" and ds': "\<forall>c\<in>set ds'. is_digit c" using dg ds by auto
  have nsp: "\<forall>c\<in>set ds. \<not> is_space c" using dg digit_class(1) by blast
  have low: "lower e = e"
  proof -
    have "map lower_char ds = ds" by (rule map_idI) (use dg digit_class(3) in blast)
    then have "lower ds = ds" by (simp add: lower_def)
    moreover have "lower e = lower ''in '' @ lower ds @ lower '' business days''"
      by (simp add: lower_def e_def)
    ultimately show ?thesis by (simp add: business_days_closed e_def)
  qed
  have str: "strip e = e"
    by (rule strip_id) (simp_all add: e_def is_space_def)
  have tail: "re_search_from time_suffixes p '' business days'' = None" for p
    using search_pre[of time_suffixes p "'' business days''"] business_days_closed(1) by simp
  have blk: "re_search_from time_suffixes p (ds @ '' business days'') = None" for p
    using search_block[OF nsp, of p "'' business days''"] tail by simp
  have sp: "re_search_from time_suffixes p (CHR '' '' # d # (ds' @ '' business days'')) = None" for p
    using search_space[OF digit_class(1)[OF d] digit_not_letter(1-5)[OF d], of p "ds' @ '' business days''"]
      blk[of "p @ '' ''"] by (simp add: ds)
  have "re_search_from time_suffixes [] (''in'' @ CHR '' '' # d # (ds' @ '' business days'')) = None"
    using search_block[OF business_days_closed(4), of "[]" "CHR '' '' # d # (ds' @ '' business days'')"]
      sp[of "''in''"] by simp
  then have srch: "re_search_from time_suffixes [] e = None" by (simp add: e_def ds)
  show "normalize e = (e, False)" by (rule normalize_plain[OF low str srch])
  show "\<not> list_ex (contains (lower e)) time_keywords"
  proof -
    have "\<not> contains e kw" if kw: "kw \<in> set time_keywords" for kw
    proof -
      from kw business_days_closed(5) have k: "kw \<noteq> []" "\<forall>k\<in>set kw. \<not> is_digit k"
        "\<not> contains ''in '' kw" "\<not> contains '' business days'' kw"
        by (auto simp: list_all_iff)
      have "d \<notin> set kw" using k(2) d by blast
      from contains_around[OF this k(1), of "''in ''" "ds' @ '' business days''"]
      have "contains e kw = (contains ''in '' kw \<or> contains (ds' @ '' business days'') kw)"
        by (simp add: e_def ds)
      moreover have "\<not> is_digit (hd kw)" using k(1,2) by (cases kw) auto
      from contains_digits[OF ds' k(1) this, of "'' business days''"]
      have "contains (ds' @ '' business days'') kw = contains '' business days'' kw" .
      ultimately show ?thesis using k(3,4) by simp
    qed
    then show ?thesis by (simp add: low list_ex_iff)
  qed
  show "fixed_words e today = Inr None"
  proof (rule fixed_words_other)
    have "hd e = CHR ''i''" by (simp add: e_def)
    with business_days_closed(6) show "e \<notin> set
       [''today'', ''now'', ''tomorrow'', ''yesterday'', ''day after tomorrow'',
        ''day before yesterday'', ''end of week'', ''end of this week'', ''this weekend'',
        ''start of next week'', ''beginning of next week'', ''next week'', ''end of month'',
        ''end of this month'', ''eom'', ''start of next month'', ''beginning of next month'',
        ''end of year'', ''end of this year'', ''eoy'', ''start of next year'',
        ''beginning of next year'']"
      unfolding list_all_iff by blast
  qed
  have ei: "e = CHR ''i'' # (''n '' @ ds @ '' business days'')" by (simp add: e_def)
  show "modifier_weekday e today = Inr None"
    unfolding ei by (rule modifier_weekday_no_match) (rule starts_with_i)
  show "counted_from_now e today = Inr None"
    unfolding ei by (rule counted_from_now_no_match) (rule starts_with_i)
  show "re_match business_pattern e = Some [(1, ds)]"
  proof -
    have 1: "first_way (Lit ''in'') (''in'' @ ('' '' @ (ds @ '' business days''))) []
        = Some ('' '' @ (ds @ '' business days''), [])"
      by (rule first_way_Lit)
    have 2: "first_way (rplus Space) ('' '' @ (ds @ '' business days'')) []
        = Some (ds @ '' business days'', [])"
      unfolding rplus_def
    proof (rule first_way_rep)
      show "\<forall>c\<in>set '' ''. in_class Space c" by (simp add: is_space_def)
      show "ds @ '' business days'' = [] \<or> \<not> in_class Space (hd (ds @ '' business days''))"
        using digit_class(1)[OF d] by (simp add: ds)
    qed simp_all
    have "first_way (rplus Digit) (ds @ '' business days'') []
        = Some ('' business days'', [])"
      unfolding rplus_def
      by (rule first_way_rep) (use dg ne in \<open>simp_all add: is_digit_def Suc_le_eq\<close>)
    from first_way_Group[OF this, of 1]
    have 3: "first_way (Group 1 (rplus Digit)) (ds @ '' business days'') []
        = Some ('' business days'', [(1, ds)])" by simp
    note 4 = business_tail[of "[(1, ds)]"]
    have "first_way business_pattern (''in'' @ ('' '' @ (ds @ '' business days''))) []
        = Some ([], [(1, ds)])"
      unfolding business_pattern_def first_way_Seq
      by (intro first_way_seq_Cons[OF 1] first_way_seq_Cons[OF 2] first_way_seq_Cons[OF 3] 4)
    then show ?thesis by (simp add: re_match_first_way e_def)
  qed
qed


lemma bdb_le: "business_days_between a b \<le> max 0 (b - a)"
proof -
  have "length (filter business_day [a + 1 .. b]) \<le> length [a + 1 .. b]" by (rule length_filter_le)
  then show ?thesis by (simp add: business_days_between_def)
qed

lemma first_match_fourth:
  assumes "fixed_words e t = Inr None" "modifier_weekday e t = Inr None"
    "counted_from_now e t = Inr None"
  shows "first_match grammars e t =
     (case in_business_days e t of
        Inl x \<Rightarrow> Inl x
      | Inr (Some p) \<Rightarrow> Inr (Some p)
      | Inr None \<Rightarrow> first_match [in_units, units_ago, a_unit_from_now, next_business_day,
              bare_weekday, month_then_day, day_then_month, iso_date] e t)"
  by (simp add: grammars_def assms)

lemma in_business_days_first_match:
  assumes n: "0 \<le> N"
  shows "normalize (''in '' @ str_int N @ '' business days'')
           = (''in '' @ str_int N @ '' business days'', False)"
    and "\<not> list_ex (contains (lower (''in '' @ str_int N @ '' business days''))) time_keywords"
    and "first_match grammars (''in '' @ str_int N @ '' business days'') today =
       (if int_max_str_digits < length (str_int N) then Inl ValueError
        else parsed_as (business_loop today 0 N) (''in '' @ str_int N @ '' business day(s)''))"
proof -
  note t = in_business_days_text[OF str_int_digits[OF n]]
  show "normalize (''in '' @ str_int N @ '' business days'')
           = (''in '' @ str_int N @ '' business days'', False)" by (rule t(1))
  show "\<not> list_ex (contains (lower (''in '' @ str_int N @ '' business days''))) time_keywords"
    by (rule t(2))
  have "in_business_days (''in '' @ str_int N @ '' business days'') today =
       (if int_max_str_digits < length (str_int N) then Inl ValueError
        else parsed_as (business_loop today 0 N) (''in '' @ str_int N @ '' business day(s)''))"
    unfolding in_business_days_def t(6) by (simp add: group_str_def py_int_str_int[OF n])
  moreover have "first_match grammars (''in '' @ str_int N @ '' business days'') today
      = (case in_business_days (''in '' @ str_int N @ '' business days'') today of
           Inl e \<Rightarrow> Inl e | Inr (Some p) \<Rightarrow> Inr (Some p)
         | Inr None \<Rightarrow> first_match [in_units, units_ago, a_unit_from_now, next_business_day,
              bare_weekday, month_then_day, day_then_month, iso_date]
              (''in '' @ str_int N @ '' business days'') today)"
    by (rule first_match_fourth[OF t(3,4,5)])
  ultimately show "first_match grammars (''in '' @ str_int N @ '' business days'') today =
       (if int_max_str_digits < length (str_int N) then Inl ValueError
        else parsed_as (business_loop today 0 N) (''in '' @ str_int N @ '' business day(s)''))"
    by (cases "business_loop today 0 N") (simp_all add: parsed_as_def)
qed

text \<open>
  C6, as the code has it: for every reference date and every \<open>N \<ge> 1\<close>, if at least \<open>N\<close>
  business days are left in the calendar after the reference date, \<open>"in N business days"\<close>
  resolves to the \<open>N\<close>-th business day after the reference date: a Monday to Friday
  \<open>t\<close> later than the reference date such that exactly \<open>N\<close> business days lie after the
  reference date up to and including \<open>t\<close>; the reference day is not counted, and from a
  Friday \<open>"in 5 business days"\<close> is the Friday 7 days later. If fewer than \<open>N\<close> business
  days are left before the end of year 9999, \<open>resolve\<close> raises instead of returning.
\<close>

theorem in_n_business_days_counts_weekdays:
  assumes v: "valid_datetime ref" and n: "1 \<le> N"
  shows "(N \<le> business_days_between (ordinal ref) MAXORDINAL \<longrightarrow>
           (\<exists>t. ordinal ref < t \<and> t \<le> MAXORDINAL \<and> business_day t
              \<and> business_days_between (ordinal ref) t = N
              \<and> (weekday ref = 4 \<and> N = 5 \<longrightarrow> t = ordinal ref + 7)
              \<and> resolve (''in '' @ str_int N @ '' business days'') ref =
                  Inr (ResultDict
                    \<lparr>date = isoformat t, day_of_week = strftime_A t,
                     expression = ''in '' @ str_int N @ '' business days'',
                     description = ''in '' @ str_int N @ '' business day(s)'',
                     days_from_today = t - ordinal ref, warning = None\<rparr>)))
       \<and> (business_days_between (ordinal ref) MAXORDINAL < N \<longrightarrow>
           resolve (''in '' @ str_int N @ '' business days'') ref =
             Inl (if int_max_str_digits < length (str_int N) then ValueError else OverflowError))"
proof (intro conjI impI)
  have n0: "0 \<le> N" using n by simp
  let ?today = "start_of_day ref"
  have vt: "valid_datetime ?today" and ot: "ordinal ?today = ordinal ref"
    using v by (simp_all add: start_of_day_simps)
  note fm = in_business_days_first_match(1,2)[OF n0]
    in_business_days_first_match(3)[OF n0, of ?today]
  note bl = business_loop_result[OF vt n, unfolded ot]
  {
    assume le: "N \<le> business_days_between (ordinal ref) MAXORDINAL"
    have "business_days_between (ordinal ref) MAXORDINAL \<le> MAXORDINAL"
      using bdb_le[of "ordinal ref" MAXORDINAL] v by (simp add: valid_datetime_def)
    with le have "N \<le> MAXORDINAL" by simp
    from str_int_short[OF n0 this] have short: "\<not> int_max_str_digits < length (str_int N)" by simp
    from bl le obtain t where t: "business_loop ?today 0 N = Inr (?today\<lparr>ordinal := t\<rparr>)"
      "ordinal ref < t" "t \<le> MAXORDINAL" "business_day t"
      "business_days_between (ordinal ref) t = N" by blast
    have five: "t = ordinal ref + 7" if "weekday ref = 4 \<and> N = 5"
      using friday_five[of "ordinal ref" t] that t(2,4,5) by (simp add: weekday_def)
    have "first_match grammars (''in '' @ str_int N @ '' business days'') ?today
        = Inr (Some (?today\<lparr>ordinal := t\<rparr>, ''in '' @ str_int N @ '' business day(s)''))"
      using fm(3) short t(1) by (simp add: parsed_as_def)
    from resolve_parsed[OF fm(1) this fm(2)]
    have "resolve (''in '' @ str_int N @ '' business days'') ref =
                  Inr (ResultDict
                    \<lparr>date = isoformat t, day_of_week = strftime_A t,
                     expression = ''in '' @ str_int N @ '' business days'',
                     description = ''in '' @ str_int N @ '' business day(s)'',
                     days_from_today = t - ordinal ref, warning = None\<rparr>)" by simp
    with t(2-5) five
    show "\<exists>t. ordinal ref < t \<and> t \<le> MAXORDINAL \<and> business_day t
              \<and> business_days_between (ordinal ref) t = N
              \<and> (weekday ref = 4 \<and> N = 5 \<longrightarrow> t = ordinal ref + 7)
              \<and> resolve (''in '' @ str_int N @ '' business days'') ref =
                  Inr (ResultDict
                    \<lparr>date = isoformat t, day_of_week = strftime_A t,
                     expression = ''in '' @ str_int N @ '' business days'',
                     description = ''in '' @ str_int N @ '' business day(s)'',
                     days_from_today = t - ordinal ref, warning = None\<rparr>)" by blast
  }
  {
    assume gt: "business_days_between (ordinal ref) MAXORDINAL < N"
    with bl have "business_loop ?today 0 N = Inl OverflowError" by blast
    then have "first_match grammars (''in '' @ str_int N @ '' business days'') ?today
        = Inl (if int_max_str_digits < length (str_int N) then ValueError else OverflowError)"
      using fm(3) by (simp add: parsed_as_def)
    from resolve_raises[OF fm(1) this]
    show "resolve (''in '' @ str_int N @ '' business days'') ref =
             Inl (if int_max_str_digits < length (str_int N) then ValueError else OverflowError)" .
  }
qed

lemma friday_2026_02_06:
  "valid_datetime (at_midnight 2026 2 6)"
  "ordinal (at_midnight 2026 2 6) = 739653"
  "weekday (at_midnight 2026 2 6) = 4"
  "business_days_between 739653 739660 = 5"
  "str_int 5 = ''5''"
  "isoformat 739660 = ''2026-02-13''" "strftime_A 739660 = ''Friday''"
  "(739653::int) \<le> 739660" "739660 \<le> MAXORDINAL"
  by code_simp+

theorem in_n_business_days_counts_weekdays_witness:
  "valid_datetime (at_midnight 2026 2 6) \<and> (1::int) \<le> 5
   \<and> 5 \<le> business_days_between (ordinal (at_midnight 2026 2 6)) MAXORDINAL
   \<and> weekday (at_midnight 2026 2 6) = 4
   \<and> resolve ''in 5 business days'' (at_midnight 2026 2 6) =
       Inr (ResultDict
         \<lparr>date = ''2026-02-13'', day_of_week = ''Friday'',
          expression = ''in 5 business days'', description = ''in 5 business day(s)'',
          days_from_today = 7, warning = None\<rparr>)"
proof -
  have le: "5 \<le> business_days_between (ordinal (at_midnight 2026 2 6)) MAXORDINAL"
    using bdb_mono[of 739653 739660 MAXORDINAL] friday_2026_02_06 by simp
  from in_n_business_days_counts_weekdays[of "at_midnight 2026 2 6" 5,
      OF friday_2026_02_06(1), THEN conjunct1, rule_format, OF _ le]
  obtain t where t: "weekday (at_midnight 2026 2 6) = 4 \<and> (5::int) = 5
        \<longrightarrow> t = ordinal (at_midnight 2026 2 6) + 7"
    "resolve (''in '' @ str_int 5 @ '' business days'') (at_midnight 2026 2 6) =
                  Inr (ResultDict
                    \<lparr>date = isoformat t, day_of_week = strftime_A t,
                     expression = ''in '' @ str_int 5 @ '' business days'',
                     description = ''in '' @ str_int 5 @ '' business day(s)'',
                     days_from_today = t - ordinal (at_midnight 2026 2 6), warning = None\<rparr>)"
    by auto
  from t(1) have "t = 739660" by (simp add: friday_2026_02_06)
  with t(2) le show ?thesis by (simp add: friday_2026_02_06)
qed

theorem in_business_days_at_calendar_end_counterexample:
  "valid_datetime (at_midnight 9999 12 31) \<and>
   resolve ''in 1 business days'' (at_midnight 9999 12 31) = Inl OverflowError"
  by code_simp

section \<open>A month name and a day\<close>

lemma month_names_closed:
  "list_all (\<lambda>(name, mo). 1 \<le> mo \<and> mo \<le> 12 \<and> 2 \<le> length name
      \<and> list_all (\<lambda>c. is_word c \<and> \<not> is_space c \<and> \<not> is_digit c \<and> lower_char c = c) name
      \<and> hd name \<notin> set ''itlp''
      \<and> \<not> (hd name = CHR ''n'' \<and> hd (tl name) = CHR ''e'')
      \<and> \<not> (hd name = CHR ''a'' \<and> hd (tl name) = CHR ''n'')
      \<and> list_all (\<lambda>kw. \<not> contains (name @ '' '') kw) time_keywords) MONTH_NAMES"
  "list_all (\<lambda>kw. kw \<noteq> [] \<and> list_all (\<lambda>k. \<not> is_digit k) kw) time_keywords"
  "list_all (\<lambda>(k, wd). list_all (\<lambda>c. \<not> is_digit c) k) WEEKDAYS"
  "list_all (\<lambda>p. list_all (\<lambda>c. \<not> is_digit c) p)
       [''today'', ''now'', ''tomorrow'', ''yesterday'', ''day after tomorrow'',
        ''day before yesterday'', ''end of week'', ''end of this week'', ''this weekend'',
        ''start of next week'', ''beginning of next week'', ''next week'', ''end of month'',
        ''end of this month'', ''eom'', ''start of next month'', ''beginning of next month'',
        ''end of year'', ''end of this year'', ''eoy'', ''start of next year'',
        ''beginning of next year'', ''next weekday'', ''next business day'', ''next workday'']"
  by code_simp+

lemma letter_start:
  assumes "\<not> is_digit c"
  shows "re_match from_now_pattern (c # s) = None" "re_match ago_pattern (c # s) = None"
    "re_match day_month_pattern (c # s) = None" "re_match iso_pattern (c # s) = None"
  using assms
  by (simp_all add: re_match_def from_now_pattern_def ago_pattern_def day_month_pattern_def
      iso_pattern_def rplus_def rcount_def Let_def)

lemma not_in_start:
  assumes "c \<noteq> CHR ''i''"
  shows "re_match business_pattern (c # s) = None" "re_match in_units_pattern (c # s) = None"
  using assms by (simp_all add: re_match_def business_pattern_def in_units_pattern_def)

lemma modifier_start:
  assumes "c1 \<noteq> CHR ''t''" "c1 \<noteq> CHR ''l''" "c1 \<noteq> CHR ''p''"
    "\<not> (c1 = CHR ''n'' \<and> c2 = CHR ''e'')"
  shows "re_match modifier_pattern (c1 # c2 # s) = None"
  using assms by (auto simp: re_match_def modifier_pattern_def)

lemma a_unit_start:
  assumes "\<not> (c1 = CHR ''a'' \<and> c2 = CHR ''n'')" "\<not> is_space c2"
  shows "re_match a_unit_pattern (c1 # c2 # s) = None"
  using assms by (simp add: re_match_def a_unit_pattern_def rplus_def Let_def)

lemma month_day_tail:
  "first_way_seq
     [Opt (Alt [Lit ''st'', Lit ''nd'', Lit ''rd'', Lit ''th'']),
      Opt (Seq [rstar Space, Opt (Lit '',''), rstar Space, Group 3 (rcount Digit 4 4)]),
      Eos] [] caps = Some ([], caps)"
  by (simp add: first_way_seq_def rstar_def rcount_def Let_def)

lemma first_match_tenth:
  assumes "fixed_words e t = Inr None" "modifier_weekday e t = Inr None"
    "counted_from_now e t = Inr None" "in_business_days e t = Inr None"
    "in_units e t = Inr None" "units_ago e t = Inr None" "a_unit_from_now e t = Inr None"
    "next_business_day e t = Inr None" "bare_weekday e t = Inr None"
    "day_then_month e t = Inr None" "iso_date e t = Inr None"
  shows "first_match grammars e t = month_then_day e t"
  using assms
  by (simp add: grammars_def split: sum.splits option.splits)


lemma with_digit_not_listed:
  assumes "d \<in> set e" "is_digit d" "list_all (\<lambda>p. list_all (\<lambda>c. \<not> is_digit c) p) L"
  shows "e \<notin> set L"
  using assms by (auto simp: list_all_iff)

lemma month_day_text:
  assumes nm: "map_of MONTH_NAMES name = Some mo"
    and ne: "ds \<noteq> []" and len: "length ds \<le> 2" and dg: "\<forall>c\<in>set ds. is_digit c"
  shows "normalize (name @ '' '' @ ds) = (name @ '' '' @ ds, False)"
    and "\<not> list_ex (contains (lower (name @ '' '' @ ds))) time_keywords"
    and "first_match grammars (name @ '' '' @ ds) today
           = month_day_date name ds None today"
    and "1 \<le> mo" "mo \<le> 12"
proof -
  define e where "e = name @ '' '' @ ds"
  from nm have "(name, mo) \<in> set MONTH_NAMES" by (rule map_of_SomeD)
  with month_names_closed(1) have p: "1 \<le> mo" "mo \<le> 12" "2 \<le> length name"
    "\<forall>c\<in>set name. is_word c \<and> \<not> is_space c \<and> \<not> is_digit c \<and> lower_char c = c"
    "hd name \<notin> set ''itlp''"
    "\<not> (hd name = CHR ''n'' \<and> hd (tl name) = CHR ''e'')"
    "\<not> (hd name = CHR ''a'' \<and> hd (tl name) = CHR ''n'')"
    "\<forall>kw\<in>set time_keywords. \<not> contains (name @ '' '') kw"
    unfolding list_all_iff by blast+
  show "1 \<le> mo" "mo \<le> 12" by (rule p)+
  obtain c1 c2 nrest where name: "name = c1 # c2 # nrest"
    using p(3) by (cases name; cases "tl name") auto
  obtain d ds' where ds: "ds = d # ds'" using ne by (cases ds) auto
  have d: "is_digit d" and ds': "\<forall>c\<in>set ds'. is_digit c" using dg ds by auto
  have c: "\<not> is_digit c1" "\<not> is_space c1" "\<not> is_space c2"
    "c1 \<noteq> CHR ''i''" "c1 \<noteq> CHR ''t''" "c1 \<noteq> CHR ''l''" "c1 \<noteq> CHR ''p''"
    "\<not> (c1 = CHR ''n'' \<and> c2 = CHR ''e'')" "\<not> (c1 = CHR ''a'' \<and> c2 = CHR ''n'')"
    using p(4-7) by (simp_all add: name)
  have e2: "e = c1 # c2 # (nrest @ '' '' @ ds)" by (simp add: e_def name)
  have din: "d \<in> set e" by (simp add: e_def ds)
  have nsp: "\<forall>c\<in>set ds. \<not> is_space c" using dg digit_class(1) by blast
  have nname: "\<forall>c\<in>set name. \<not> is_space c" using p(4) by blast
  have low: "lower e = e"
  proof -
    have "map lower_char ds = ds" by (rule map_idI) (use dg digit_class(3) in blast)
    moreover have "map lower_char name = name" by (rule map_idI) (use p(4) in blast)
    moreover have "lower_char CHR '' '' = CHR '' ''" by (simp add: lower_char_def)
    ultimately show ?thesis by (simp add: lower_def e_def)
  qed
  have str: "strip e = e"
  proof (rule strip_id)
    show "e \<noteq> []" by (simp add: e2)
    show "\<not> is_space (hd e)" using c(2) by (simp add: e2)
    have "last e = last ds" using ne by (simp add: e_def)
    moreover have "last ds \<in> set ds" using ne by simp
    ultimately show "\<not> is_space (last e)" using nsp by simp
  qed
  have blk: "re_search_from time_suffixes q (ds @ []) = None" for q
    using search_block[OF nsp, of q "[]"] search_end by simp
  have sp: "re_search_from time_suffixes q (CHR '' '' # d # ds') = None" for q
    using search_space[OF digit_class(1)[OF d] digit_not_letter(1-5)[OF d], of q ds']
      blk[of "q @ '' ''"] by (simp add: ds)
  have "re_search_from time_suffixes [] (name @ CHR '' '' # d # ds') = None"
    using search_block[OF nname, of "[]" "CHR '' '' # d # ds'"] sp[of name] by simp
  then have srch: "re_search_from time_suffixes [] e = None" by (simp add: e_def ds)
  have nz: "normalize e = (e, False)" by (rule normalize_plain[OF low str srch])
  then show "normalize (name @ '' '' @ ds) = (name @ '' '' @ ds, False)" by (simp add: e_def)
  have kwd: "\<not> list_ex (contains (lower e)) time_keywords"
  proof -
    have "\<not> contains e kw" if kw: "kw \<in> set time_keywords" for kw
    proof -
      from kw month_names_closed(2) have k: "kw \<noteq> []" "\<forall>k\<in>set kw. \<not> is_digit k"
        by (auto simp: list_all_iff)
      have "d \<notin> set kw" using k(2) d by blast
      from contains_around[OF this k(1), of "name @ '' ''" ds']
      have "contains e kw = (contains (name @ '' '') kw \<or> contains ds' kw)"
        by (simp add: e_def ds)
      moreover have "\<not> is_digit (hd kw)" using k(1,2) by (cases kw) auto
      from contains_digits[OF ds' k(1) this, of "[]"]
      have "contains ds' kw = False" using k(1) by simp
      ultimately show ?thesis using p(8) kw by simp
    qed
    then show ?thesis by (simp add: low list_ex_iff)
  qed
  then show "\<not> list_ex (contains (lower (name @ '' '' @ ds))) time_keywords"
    by (simp add: e_def)
  have listed: "list_all (\<lambda>p. list_all (\<lambda>c. \<not> is_digit c) p) L \<Longrightarrow> e \<notin> set L" for L
    by (rule with_digit_not_listed[OF din d])
  have g1: "fixed_words e today = Inr None"
    using listed[OF month_names_closed(4)] by (intro fixed_words_other) simp
  have g2: "modifier_weekday e today = Inr None"
    unfolding e2 by (rule modifier_weekday_no_match) (rule modifier_start[OF c(5,6,7,8)])
  have g3: "counted_from_now e today = Inr None"
    unfolding e2 by (rule counted_from_now_no_match) (rule letter_start[OF c(1)])
  have g4: "in_business_days e today = Inr None"
    unfolding e2 by (rule in_business_days_no_match) (rule not_in_start[OF c(4)])
  have g5: "in_units e today = Inr None"
    unfolding e2 by (rule in_units_no_match) (rule not_in_start[OF c(4)])
  have g6: "units_ago e today = Inr None"
    unfolding e2 by (rule units_ago_no_match) (rule letter_start[OF c(1)])
  have g7: "a_unit_from_now e today = Inr None"
    unfolding e2 by (rule a_unit_from_now_no_match) (rule a_unit_start[OF c(9,3)])
  have g8: "next_business_day e today = Inr None"
    using listed[OF month_names_closed(4)] by (simp add: next_business_day_def)
  have g9: "bare_weekday e today = Inr None"
  proof (rule bare_weekday_no_match)
    have "e \<notin> fst ` set WEEKDAYS"
      using month_names_closed(3) din d by (auto simp: list_all_iff)
    then show "map_of WEEKDAYS e = None" by (simp add: map_of_eq_None_iff)
  qed
  have g11: "day_then_month e today = Inr None"
    unfolding e2 by (rule day_then_month_no_match) (rule letter_start[OF c(1)])
  have g12: "iso_date e today = Inr None"
    unfolding e2 by (rule iso_date_no_match) (rule letter_start[OF c(1)])
  have m: "re_match month_day_pattern e = Some [(2, ds), (1, name)]"
  proof -
    have "first_way (rplus Word) (name @ ('' '' @ ds)) [] = Some ('' '' @ ds, [])"
      unfolding rplus_def
    proof (rule first_way_rep)
      show "\<forall>c\<in>set name. in_class Word c" using p(4) by simp
      show "'' '' @ ds = [] \<or> \<not> in_class Word (hd ('' '' @ ds))" by (simp add: is_word_def)
      show "1 \<le> length name" using p(3) by simp
    qed simp
    from first_way_Group[OF this, of 1]
    have 1: "first_way (Group 1 (rplus Word)) (name @ ('' '' @ ds)) []
        = Some ('' '' @ ds, [(1, name)])" by simp
    have 2: "first_way (rplus Space) ('' '' @ ds) [(1, name)] = Some (ds, [(1, name)])"
      unfolding rplus_def
    proof (rule first_way_rep)
      show "\<forall>c\<in>set '' ''. in_class Space c" by (simp add: is_space_def)
      show "ds = [] \<or> \<not> in_class Space (hd ds)" using digit_class(1)[OF d] by (simp add: ds)
    qed simp_all
    have "first_way (rcount Digit 1 2) (ds @ []) [(1, name)] = Some ([], [(1, name)])"
      unfolding rcount_def
      by (rule first_way_rep) (use dg ne len in \<open>simp_all add: Suc_le_eq\<close>)
    from first_way_Group[OF this, of 2]
    have 3: "first_way (Group 2 (rcount Digit 1 2)) ds [(1, name)]
        = Some ([], [(2, ds), (1, name)])" by simp
    note 4 = month_day_tail[of "[(2, ds), (1, name)]"]
    have "first_way month_day_pattern (name @ ('' '' @ ds)) [] = Some ([], [(2, ds), (1, name)])"
      unfolding month_day_pattern_def first_way_Seq
      by (intro first_way_seq_Cons[OF 1] first_way_seq_Cons[OF 2] first_way_seq_Cons[OF 3] 4)
    then show ?thesis by (simp add: re_match_first_way e_def)
  qed
  have "month_then_day e today = month_day_date name ds None today"
    unfolding month_then_day_def m by (simp add: group_str_def group_def)
  with first_match_tenth[OF g1 g2 g3 g4 g5 g6 g7 g8 g9 g11 g12]
  show "first_match grammars (name @ '' '' @ ds) today = month_day_date name ds None today"
    by (simp add: e_def)
qed


lemma month_day_date_default:
  assumes "map_of MONTH_NAMES name = Some mo" "length ds \<le> 2"
  shows "month_day_date name ds None today =
     (if valid_ymd (year today) mo (int_of_digits ds) then
        if ymd2ord (year today) mo (int_of_digits ds) < ordinal today then
          if valid_ymd (year today + 1) mo (int_of_digits ds) then
            Inr (Some (at_midnight (year today + 1) mo (int_of_digits ds),
              title name @ '' '' @ str_int (int_of_digits ds) @ '', ''
                @ str_int (year today + 1)))
          else Inr None
        else Inr (Some (at_midnight (year today) mo (int_of_digits ds),
              title name @ '' '' @ str_int (int_of_digits ds) @ '', '' @ str_int (year today)))
      else Inr None)"
proof -
  have y: "year (at_midnight y mo d) = y" if "valid_ymd y mo d" for y d
    by (rule ymd_of_ymd2ord(1)[OF that]) (simp add: at_midnight_def)
  have o: "ordinal (at_midnight y mo d) = ymd2ord y mo d" for y d
    by (simp add: at_midnight_def)
  have i: "py_int ds = Inr (int_of_digits ds)"
    using assms(2) by (simp add: py_int_def int_max_str_digits_def)
  show ?thesis
    unfolding month_day_date_def assms(1) i
    by (simp add: truthy_def mk_datetime_def except_ValueError_def y o)
qed

lemma month_day_resolve:
  assumes "map_of MONTH_NAMES name = Some mo"
    and "ds \<noteq> []" and "length ds \<le> 2" and "\<forall>c\<in>set ds. is_digit c"
  shows "(valid_ymd (year ref) mo (int_of_digits ds)
          \<and> ordinal ref \<le> ymd2ord (year ref) mo (int_of_digits ds) \<longrightarrow>
           resolve (name @ '' '' @ ds) ref = Inr (ResultDict
             \<lparr>date = isoformat (ymd2ord (year ref) mo (int_of_digits ds)),
              day_of_week = strftime_A (ymd2ord (year ref) mo (int_of_digits ds)),
              expression = name @ '' '' @ ds,
              description = title name @ '' '' @ str_int (int_of_digits ds) @ '', ''
                @ str_int (year ref),
              days_from_today = ymd2ord (year ref) mo (int_of_digits ds) - ordinal ref,
              warning = None\<rparr>))
       \<and> (valid_ymd (year ref) mo (int_of_digits ds)
          \<and> ymd2ord (year ref) mo (int_of_digits ds) < ordinal ref
          \<and> valid_ymd (year ref + 1) mo (int_of_digits ds) \<longrightarrow>
           resolve (name @ '' '' @ ds) ref = Inr (ResultDict
             \<lparr>date = isoformat (ymd2ord (year ref + 1) mo (int_of_digits ds)),
              day_of_week = strftime_A (ymd2ord (year ref + 1) mo (int_of_digits ds)),
              expression = name @ '' '' @ ds,
              description = title name @ '' '' @ str_int (int_of_digits ds) @ '', ''
                @ str_int (year ref + 1),
              days_from_today = ymd2ord (year ref + 1) mo (int_of_digits ds) - ordinal ref,
              warning = None\<rparr>))
       \<and> (\<not> valid_ymd (year ref) mo (int_of_digits ds)
          \<or> ymd2ord (year ref) mo (int_of_digits ds) < ordinal ref
            \<and> \<not> valid_ymd (year ref + 1) mo (int_of_digits ds) \<longrightarrow>
           resolve (name @ '' '' @ ds) ref =
             Inr (ErrorDict (''Could not parse: '' @ [CHR 0x27] @ (name @ '' '' @ ds) @ [CHR 0x27])))"
proof -
  let ?today = "start_of_day ref"
  let ?e = "name @ '' '' @ ds"
  note t = month_day_text(1,2)[OF assms] month_day_text(3)[OF assms, of ?today]
  note fm = t(3)[unfolded month_day_date_default[OF assms(1,3)] start_of_day_simps]
  have 1: "resolve ?e ref = Inr (ResultDict
             \<lparr>date = isoformat (ymd2ord (year ref) mo (int_of_digits ds)),
              day_of_week = strftime_A (ymd2ord (year ref) mo (int_of_digits ds)),
              expression = ?e,
              description = title name @ '' '' @ str_int (int_of_digits ds) @ '', ''
                @ str_int (year ref),
              days_from_today = ymd2ord (year ref) mo (int_of_digits ds) - ordinal ref,
              warning = None\<rparr>)"
    if a: "valid_ymd (year ref) mo (int_of_digits ds)
          \<and> ordinal ref \<le> ymd2ord (year ref) mo (int_of_digits ds)"
  proof -
    from fm a have "first_match grammars ?e ?today
        = Inr (Some (at_midnight (year ref) mo (int_of_digits ds),
            title name @ '' '' @ str_int (int_of_digits ds) @ '', '' @ str_int (year ref)))"
      by simp
    from resolve_parsed[OF t(1) this t(2)] show ?thesis by (simp add: at_midnight_def)
  qed
  have 2: "resolve ?e ref = Inr (ResultDict
             \<lparr>date = isoformat (ymd2ord (year ref + 1) mo (int_of_digits ds)),
              day_of_week = strftime_A (ymd2ord (year ref + 1) mo (int_of_digits ds)),
              expression = ?e,
              description = title name @ '' '' @ str_int (int_of_digits ds) @ '', ''
                @ str_int (year ref + 1),
              days_from_today = ymd2ord (year ref + 1) mo (int_of_digits ds) - ordinal ref,
              warning = None\<rparr>)"
    if a: "valid_ymd (year ref) mo (int_of_digits ds)
          \<and> ymd2ord (year ref) mo (int_of_digits ds) < ordinal ref
          \<and> valid_ymd (year ref + 1) mo (int_of_digits ds)"
  proof -
    from fm a have "first_match grammars ?e ?today
        = Inr (Some (at_midnight (year ref + 1) mo (int_of_digits ds),
            title name @ '' '' @ str_int (int_of_digits ds) @ '', '' @ str_int (year ref + 1)))"
      by simp
    from resolve_parsed[OF t(1) this t(2)] show ?thesis by (simp add: at_midnight_def)
  qed
  have 3: "resolve ?e ref = Inr (ErrorDict (''Could not parse: '' @ [CHR 0x27] @ ?e @ [CHR 0x27]))"
    if a: "\<not> valid_ymd (year ref) mo (int_of_digits ds)
          \<or> ymd2ord (year ref) mo (int_of_digits ds) < ordinal ref
            \<and> \<not> valid_ymd (year ref + 1) mo (int_of_digits ds)"
  proof -
    from fm a have "first_match grammars ?e ?today = Inr None" by auto
    from resolve_unparsed[OF t(1) this] show ?thesis .
  qed
  from 1 2 3 show ?thesis by blast
qed

text \<open>
  C8, as the code has it: for every month name of \<open>MONTH_NAMES\<close> and every day written
  with one or two digits, \<open>"<month> <day>"\<close> without a year is first read in the year
  of the reference date. If there is such a date and it is not before the reference
  date, it is the result. If it is before the reference date, the result is the same
  month and day one year later, provided that day exists there (not February 29 in a
  year that is no leap year, not year 10000). In every other case no block sets the
  date and \<open>resolve\<close> returns the parse error.
\<close>

theorem month_day_defaults_to_reference_year:
  assumes "map_of MONTH_NAMES name = Some mo"
    and "ds \<noteq> []" and "length ds \<le> 2" and "\<forall>c\<in>set ds. is_digit c"
  shows "(valid_ymd (year ref) mo (int_of_digits ds)
          \<and> ordinal ref \<le> ymd2ord (year ref) mo (int_of_digits ds) \<longrightarrow>
           resolve (name @ '' '' @ ds) ref = Inr (ResultDict
             \<lparr>date = isoformat (ymd2ord (year ref) mo (int_of_digits ds)),
              day_of_week = strftime_A (ymd2ord (year ref) mo (int_of_digits ds)),
              expression = name @ '' '' @ ds,
              description = title name @ '' '' @ str_int (int_of_digits ds) @ '', ''
                @ str_int (year ref),
              days_from_today = ymd2ord (year ref) mo (int_of_digits ds) - ordinal ref,
              warning = None\<rparr>))
       \<and> (valid_ymd (year ref) mo (int_of_digits ds)
          \<and> ymd2ord (year ref) mo (int_of_digits ds) < ordinal ref
          \<and> valid_ymd (year ref + 1) mo (int_of_digits ds) \<longrightarrow>
           resolve (name @ '' '' @ ds) ref = Inr (ResultDict
             \<lparr>date = isoformat (ymd2ord (year ref + 1) mo (int_of_digits ds)),
              day_of_week = strftime_A (ymd2ord (year ref + 1) mo (int_of_digits ds)),
              expression = name @ '' '' @ ds,
              description = title name @ '' '' @ str_int (int_of_digits ds) @ '', ''
                @ str_int (year ref + 1),
              days_from_today = ymd2ord (year ref + 1) mo (int_of_digits ds) - ordinal ref,
              warning = None\<rparr>))
       \<and> (\<not> valid_ymd (year ref) mo (int_of_digits ds)
          \<or> ymd2ord (year ref) mo (int_of_digits ds) < ordinal ref
            \<and> \<not> valid_ymd (year ref + 1) mo (int_of_digits ds) \<longrightarrow>
           resolve (name @ '' '' @ ds) ref =
             Inr (ErrorDict (''Could not parse: '' @ [CHR 0x27] @ (name @ '' '' @ ds) @ [CHR 0x27])))"
  using assms by (rule month_day_resolve)

lemma march_15:
  "map_of MONTH_NAMES ''march'' = Some 3" "''15'' \<noteq> []" "length ''15'' \<le> 2"
  "\<forall>c\<in>set ''15''. is_digit c" "int_of_digits ''15'' = 15"
  "year (at_midnight 2026 4 1) = 2026" "year (at_midnight 2026 2 8) = 2026"
  "valid_ymd 2026 3 15" "valid_ymd 2027 3 15"
  "ymd2ord 2026 3 15 < ordinal (at_midnight 2026 4 1)"
  "ordinal (at_midnight 2026 2 8) \<le> ymd2ord 2026 3 15"
  "ymd2ord 2027 3 15 - ordinal (at_midnight 2026 4 1) = 348"
  "ymd2ord 2026 3 15 - ordinal (at_midnight 2026 2 8) = 35"
  "isoformat (ymd2ord 2027 3 15) = ''2027-03-15''" "strftime_A (ymd2ord 2027 3 15) = ''Monday''"
  "isoformat (ymd2ord 2026 3 15) = ''2026-03-15''" "strftime_A (ymd2ord 2026 3 15) = ''Sunday''"
  "title ''march'' = ''March''" "str_int 15 = ''15''" "str_int 2027 = ''2027''"
  "str_int 2026 = ''2026''"
  by code_simp+

theorem month_day_defaults_to_reference_year_witness:
  "map_of MONTH_NAMES ''march'' = Some 3
   \<and> valid_ymd 2026 3 15 \<and> ymd2ord 2026 3 15 < ordinal (at_midnight 2026 4 1)
   \<and> valid_ymd 2027 3 15
   \<and> resolve ''march 15'' (at_midnight 2026 4 1) = Inr (ResultDict
       \<lparr>date = ''2027-03-15'', day_of_week = ''Monday'', expression = ''march 15'',
        description = ''March 15, 2027'', days_from_today = 348, warning = None\<rparr>)
   \<and> ordinal (at_midnight 2026 2 8) \<le> ymd2ord 2026 3 15
   \<and> resolve ''march 15'' (at_midnight 2026 2 8) = Inr (ResultDict
       \<lparr>date = ''2026-03-15'', day_of_week = ''Sunday'', expression = ''march 15'',
        description = ''March 15, 2026'', days_from_today = 35, warning = None\<rparr>)"
proof -
  note t = month_day_defaults_to_reference_year[OF march_15(1,2,3,4)]
  have a: "valid_ymd (year (at_midnight 2026 4 1)) 3 (int_of_digits ''15'')
      \<and> ymd2ord (year (at_midnight 2026 4 1)) 3 (int_of_digits ''15'') < ordinal (at_midnight 2026 4 1)
      \<and> valid_ymd (year (at_midnight 2026 4 1) + 1) 3 (int_of_digits ''15'')"
    by (simp add: march_15)
  have b: "valid_ymd (year (at_midnight 2026 2 8)) 3 (int_of_digits ''15'')
      \<and> ordinal (at_midnight 2026 2 8) \<le> ymd2ord (year (at_midnight 2026 2 8)) 3 (int_of_digits ''15'')"
    by (simp add: march_15)
  from t[of "at_midnight 2026 4 1", THEN conjunct2, THEN conjunct1, rule_format, OF a]
  have 1: "resolve ''march 15'' (at_midnight 2026 4 1) = Inr (ResultDict
       \<lparr>date = ''2027-03-15'', day_of_week = ''Monday'', expression = ''march 15'',
        description = ''March 15, 2027'', days_from_today = 348, warning = None\<rparr>)"
    by (simp add: march_15)
  from t[of "at_midnight 2026 2 8", THEN conjunct1, rule_format, OF b]
  have 2: "resolve ''march 15'' (at_midnight 2026 2 8) = Inr (ResultDict
       \<lparr>date = ''2026-03-15'', day_of_week = ''Sunday'', expression = ''march 15'',
        description = ''March 15, 2026'', days_from_today = 35, warning = None\<rparr>)"
    by (simp add: march_15)
  from 1 2 show ?thesis by (simp add: march_15)
qed

lemma feb_29:
  "map_of MONTH_NAMES ''feb'' = Some 2" "''29'' \<noteq> []" "length ''29'' \<le> 2"
  "\<forall>c\<in>set ''29''. is_digit c" "int_of_digits ''29'' = 29"
  "year (at_midnight 2024 3 1) = 2024"
  "valid_ymd 2024 2 29" "\<not> valid_ymd 2025 2 29"
  "ymd2ord 2024 2 29 < ordinal (at_midnight 2024 3 1)"
  "map_of MONTH_NAMES ''jan'' = Some 1" "''1'' \<noteq> []" "length ''1'' \<le> 2"
  "\<forall>c\<in>set ''1''. is_digit c" "int_of_digits ''1'' = 1"
  "year (at_midnight 9999 6 15) = 9999"
  "valid_ymd 9999 1 1" "\<not> valid_ymd 10000 1 1"
  "ymd2ord 9999 1 1 < ordinal (at_midnight 9999 6 15)"
  by code_simp+

theorem passed_date_not_rolled_forward_counterexample:
  "valid_ymd 2024 2 29 \<and> ymd2ord 2024 2 29 < ordinal (at_midnight 2024 3 1)
   \<and> resolve ''feb 29'' (at_midnight 2024 3 1)
       = Inr (ErrorDict (''Could not parse: '' @ [CHR 0x27] @ ''feb 29'' @ [CHR 0x27]))
   \<and> valid_ymd 9999 1 1 \<and> ymd2ord 9999 1 1 < ordinal (at_midnight 9999 6 15)
   \<and> resolve ''jan 1'' (at_midnight 9999 6 15)
       = Inr (ErrorDict (''Could not parse: '' @ [CHR 0x27] @ ''jan 1'' @ [CHR 0x27]))"
proof -
  have a: "\<not> valid_ymd (year (at_midnight 2024 3 1)) 2 (int_of_digits ''29'')
      \<or> ymd2ord (year (at_midnight 2024 3 1)) 2 (int_of_digits ''29'') < ordinal (at_midnight 2024 3 1)
        \<and> \<not> valid_ymd (year (at_midnight 2024 3 1) + 1) 2 (int_of_digits ''29'')"
    by (simp add: feb_29)
  have b: "\<not> valid_ymd (year (at_midnight 9999 6 15)) 1 (int_of_digits ''1'')
      \<or> ymd2ord (year (at_midnight 9999 6 15)) 1 (int_of_digits ''1'') < ordinal (at_midnight 9999 6 15)
        \<and> \<not> valid_ymd (year (at_midnight 9999 6 15) + 1) 1 (int_of_digits ''1'')"
    by (simp add: feb_29)
  from month_day_resolve[OF feb_29(1,2,3,4), of "at_midnight 2024 3 1",
      THEN conjunct2, THEN conjunct2, rule_format, OF a]
  have 1: "resolve ''feb 29'' (at_midnight 2024 3 1)
       = Inr (ErrorDict (''Could not parse: '' @ [CHR 0x27] @ ''feb 29'' @ [CHR 0x27]))"
    by simp
  from month_day_resolve[OF feb_29(10,11,12,13), of "at_midnight 9999 6 15",
      THEN conjunct2, THEN conjunct2, rule_format, OF b]
  have 2: "resolve ''jan 1'' (at_midnight 9999 6 15)
       = Inr (ErrorDict (''Could not parse: '' @ [CHR 0x27] @ ''jan 1'' @ [CHR 0x27]))"
    by simp
  from 1 2 show ?thesis by (simp add: feb_29)
qed

end
